theory Spec2Isabelle
  imports Main
begin

section \<open>The store: tables, rows and the queries of the data-access module\<close>

text \<open>
  The data-access module talks to a relational store through a query client. Every
  function of the module is one or a few queries; the tables are modelled as lists of
  rows in storage order (the order \<open>findMany\<close> returns them in), identifiers as the
  natural numbers an autoincrement column hands out, timestamps as natural numbers
  (milliseconds).
\<close>

record folder =
  folder_id :: nat
  folder_name :: string
  userId :: nat
  parentId :: "nat option"

record fileRow =
  file_id :: nat
  file_name :: string
  file_path :: string
  file_size :: nat
  file_folderId :: nat

record shareLink =
  link_id :: nat
  link_folderId :: nat
  expiresAt :: nat

text \<open>The write statements that took effect, in the order they were issued.\<close>

datatype statement =
    FolderCreate nat
  | FolderUpdate nat
  | FolderDelete nat
  | FileDeleteMany nat
  | ShareLinkDeleteMany nat
  | ShareLinkCreate nat

record store =
  folders :: "folder list"
  files :: "fileRow list"
  shareLinks :: "shareLink list"
  folderSeq :: nat
  linkSeq :: nat
  journal :: "statement list"

text \<open>
  The constraints that the schema declares on a row (foreign keys, unique indexes) are
  checked by the store when a row is written. The schema is not part of the module, so
  the check is a parameter of every writing query.
\<close>

record schema =
  folderOk :: "store \<Rightarrow> folder \<Rightarrow> bool"
  linkOk :: "store \<Rightarrow> shareLink \<Rightarrow> bool"

text \<open>What a query or a function of the module throws.\<close>

datatype error =
    RecordNotFound
  | ConstraintViolation
  | FolderNotFound nat
  | TypeError

subsection \<open>Queries\<close>

text \<open>
  The queries that the module issues, one definition for each shape of query in the
  source. \<open>findUnique\<close> and \<open>findFirst\<close> return the first matching row or \<open>null\<close>,
  \<open>findMany\<close> the matching rows, \<open>create\<close> appends a row with the next identifier,
  \<open>update\<close> and \<open>delete\<close> throw when no row has the identifier, \<open>deleteMany\<close> removes
  the matching rows, however many.
\<close>

definition folder_findUnique :: "store \<Rightarrow> nat \<Rightarrow> folder option" where
  "folder_findUnique st i = find (\<lambda>f. folder_id f = i) (folders st)"

definition folder_findMany_parent :: "store \<Rightarrow> nat \<Rightarrow> folder list" where
  "folder_findMany_parent st p = filter (\<lambda>f. parentId f = Some p) (folders st)"

text \<open>
  A \<open>parentId\<close> handed to a \<open>where\<close> clause is a number, \<open>null\<close> or \<open>undefined\<close>. The
  query client leaves a condition whose value is \<open>undefined\<close> out of the query, so that
  every row meets it; \<open>null\<close> is met by the rows without parent.
\<close>

datatype parentArg = ParentUndefined | ParentNull | ParentIs nat

fun whereParent :: "parentArg \<Rightarrow> folder \<Rightarrow> bool" where
  "whereParent ParentUndefined f = True"
| "whereParent ParentNull f = (parentId f = None)"
| "whereParent (ParentIs p) f = (parentId f = Some p)"

definition folder_findFirst_name_parent :: "store \<Rightarrow> string \<Rightarrow> parentArg \<Rightarrow> folder option" where
  "folder_findFirst_name_parent st n p =
     find (\<lambda>f. folder_name f = n \<and> whereParent p f) (folders st)"

definition folder_findFirst_user_root :: "store \<Rightarrow> nat \<Rightarrow> folder option" where
  "folder_findFirst_user_root st u =
     find (\<lambda>f. userId f = u \<and> parentId f = None) (folders st)"

definition folder_create :: "schema \<Rightarrow> store \<Rightarrow> string \<Rightarrow> nat \<Rightarrow> nat option \<Rightarrow> error + folder \<times> store" where
  "folder_create sch st n u p =
     (let row = \<lparr>folder_id = Suc (folderSeq st), folder_name = n, userId = u, parentId = p\<rparr>
      in if folderOk sch st row
         then Inr (row, st\<lparr>folders := folders st @ [row],
                           folderSeq := Suc (folderSeq st),
                           journal := journal st @ [FolderCreate (folder_id row)]\<rparr>)
         else Inl ConstraintViolation)"

definition folder_update :: "schema \<Rightarrow> store \<Rightarrow> nat \<Rightarrow> string \<Rightarrow> nat option \<Rightarrow> error + folder \<times> store" where
  "folder_update sch st i n p =
     (case folder_findUnique st i of
        None \<Rightarrow> Inl RecordNotFound
      | Some old \<Rightarrow>
          (let row = old\<lparr>folder_name := n, parentId := p\<rparr>
           in if folderOk sch st row
              then Inr (row, st\<lparr>folders := map (\<lambda>f. if folder_id f = i then row else f) (folders st),
                                journal := journal st @ [FolderUpdate i]\<rparr>)
              else Inl ConstraintViolation))"

definition folder_delete :: "store \<Rightarrow> nat \<Rightarrow> error + store" where
  "folder_delete st i =
     (case folder_findUnique st i of
        None \<Rightarrow> Inl RecordNotFound
      | Some _ \<Rightarrow> Inr (st\<lparr>folders := filter (\<lambda>f. folder_id f \<noteq> i) (folders st),
                           journal := journal st @ [FolderDelete i]\<rparr>))"

definition file_deleteMany_folder :: "store \<Rightarrow> nat \<Rightarrow> store" where
  "file_deleteMany_folder st i =
     st\<lparr>files := filter (\<lambda>x. file_folderId x \<noteq> i) (files st),
        journal := journal st @ [FileDeleteMany i]\<rparr>"

definition shareLink_deleteMany_folder :: "store \<Rightarrow> nat \<Rightarrow> store" where
  "shareLink_deleteMany_folder st i =
     st\<lparr>shareLinks := filter (\<lambda>l. link_folderId l \<noteq> i) (shareLinks st),
        journal := journal st @ [ShareLinkDeleteMany i]\<rparr>"


definition shareLink_findUnique :: "store \<Rightarrow> nat \<Rightarrow> shareLink option" where
  "shareLink_findUnique st i = find (\<lambda>l. link_id l = i) (shareLinks st)"

section \<open>The functions of the module\<close>

subsection \<open>Descendants and move targets\<close>

text \<open>
  \<open>for (const x of xs) { await body(x) }\<close> over a state that every iteration updates.
  The body may fail to return (\<open>None\<close>), and then so does the loop.
\<close>

fun forEach :: "('a \<Rightarrow> 's \<Rightarrow> 's option) \<Rightarrow> 'a list \<Rightarrow> 's \<Rightarrow> 's option" where
  "forEach body [] s = Some s"
| "forEach body (x # xs) s =
     (case body x s of None \<Rightarrow> None | Some s' \<Rightarrow> forEach body xs s')"

text \<open>
  \<open>findChildren\<close> is the inner function of \<open>findDescendantFolders\<close>; the array
  \<open>descendants\<close> it pushes to is passed through. The first argument bounds the depth of
  nested calls: the source has no bound and does not return on a cyclic parent relation,
  which is the value \<open>None\<close> for every bound.
\<close>

fun findChildren :: "nat \<Rightarrow> store \<Rightarrow> nat \<Rightarrow> nat list \<Rightarrow> nat list option" where
  "findChildren 0 st parent descendants = None"
| "findChildren (Suc n) st parent descendants =
     forEach (\<lambda>subfolder ds. findChildren n st (folder_id subfolder) (ds @ [folder_id subfolder]))
       (folder_findMany_parent st parent) descendants"

definition findDescendantFolders :: "nat \<Rightarrow> store \<Rightarrow> nat \<Rightarrow> nat list option" where
  "findDescendantFolders n st folderId = findChildren n st folderId []"

text \<open>
  \<open>findParentFolders\<close> pushes the folder itself to its descendants and returns the
  folders of the user whose identifier is not among them.
\<close>

definition findParentFolders :: "nat \<Rightarrow> store \<Rightarrow> nat \<Rightarrow> nat \<Rightarrow> folder list option" where
  "findParentFolders n st user folderId =
     (case findDescendantFolders n st folderId of
        None \<Rightarrow> None
      | Some ds \<Rightarrow>
          (let descendants = ds @ [folderId]
           in Some (filter (\<lambda>f. userId f = user \<and> folder_id f \<notin> set descendants) (folders st))))"

subsection \<open>Home folder, lookups, creation and update\<close>

text \<open>\<open>createHomeFolder\<close> creates a folder with the name Home and no \<open>parentId\<close>.\<close>

definition createHomeFolder :: "schema \<Rightarrow> store \<Rightarrow> nat \<Rightarrow> error + store" where
  "createHomeFolder sch st user =
     (case folder_create sch st ''Home'' user None of
        Inl e \<Rightarrow> Inl e
      | Inr (row, st') \<Rightarrow> Inr st')"

text \<open>
  The result of \<open>findFolder\<close>: the row, its \<open>subfolders\<close>, its \<open>files\<close> and the nested
  \<open>parent\<close> field. A level that the query does not include has no \<open>parent\<close> field
  (\<open>NotIncluded\<close>); an included level holds \<open>null\<close> or the parent row with its own
  \<open>parent\<close> field.
\<close>

datatype parentChain = NotIncluded | Included "(folder \<times> parentChain) option"

record folderView =
  view_folder :: folder
  view_subfolders :: "folder list"
  view_files :: "fileRow list"
  view_parent :: parentChain

fun includeParent :: "nat \<Rightarrow> store \<Rightarrow> folder \<Rightarrow> parentChain" where
  "includeParent 0 st f = NotIncluded"
| "includeParent (Suc n) st f =
     Included (case parentId f of
                 None \<Rightarrow> None
               | Some p \<Rightarrow>
                   (case folder_findUnique st p of
                      None \<Rightarrow> None
                    | Some pf \<Rightarrow> Some (pf, includeParent n st pf)))"

text \<open>The query of \<open>findFolder\<close> nests \<open>parent\<close> four times, one \<open>Suc\<close> each.\<close>

definition findFolder :: "store \<Rightarrow> nat \<Rightarrow> folderView option" where
  "findFolder st folderId =
     (case folder_findUnique st folderId of
        None \<Rightarrow> None
      | Some f \<Rightarrow>
          Some \<lparr>view_folder = f,
                view_subfolders = folder_findMany_parent st folderId,
                view_files = filter (\<lambda>x. file_folderId x = folderId) (files st),
                view_parent = includeParent (Suc (Suc (Suc (Suc 0)))) st f\<rparr>)"

text \<open>
  \<open>createFolder\<close> is one \<open>create\<close>; in the data of a \<open>create\<close> a \<open>parentId\<close> that is
  \<open>null\<close> and one that is \<open>undefined\<close> both give a row without parent, so \<open>None\<close> stands
  for either. \<open>checkFoldernameExist\<close> is one \<open>findFirst\<close> whose \<open>where\<close> clause holds the
  name and the \<open>parentId\<close> as it was passed. \<open>findHomeFolderId\<close> reads the \<open>id\<close> of the
  first rootless folder of the user (a type error when there is none),
  \<open>findFolderUserId\<close> throws when the folder is not found.
\<close>

definition createFolder :: "schema \<Rightarrow> store \<Rightarrow> string \<Rightarrow> nat \<Rightarrow> nat option \<Rightarrow> error + store" where
  "createFolder sch st name user parent =
     (case folder_create sch st name user parent of
        Inl e \<Rightarrow> Inl e
      | Inr (row, st') \<Rightarrow> Inr st')"

definition checkFoldernameExist :: "store \<Rightarrow> string \<Rightarrow> parentArg \<Rightarrow> bool" where
  "checkFoldernameExist st name parent = (folder_findFirst_name_parent st name parent \<noteq> None)"

definition findHomeFolderId :: "store \<Rightarrow> nat \<Rightarrow> error + nat" where
  "findHomeFolderId st user =
     (case folder_findFirst_user_root st user of
        None \<Rightarrow> Inl TypeError
      | Some homeFolder \<Rightarrow> Inr (folder_id homeFolder))"

definition findFolderUserId :: "store \<Rightarrow> nat \<Rightarrow> error + nat" where
  "findFolderUserId st folderId =
     (case folder_findUnique st folderId of
        None \<Rightarrow> Inl (FolderNotFound folderId)
      | Some f \<Rightarrow> Inr (userId f))"

text \<open>
  \<open>newParentId || null\<close>: \<open>null\<close>, \<open>undefined\<close> (both \<open>None\<close>) and the number 0 all
  become \<open>null\<close>.
\<close>

definition orNull :: "nat option \<Rightarrow> nat option" where
  "orNull v = (case v of None \<Rightarrow> None | Some i \<Rightarrow> if i = 0 then None else Some i)"

definition updateFolder :: "schema \<Rightarrow> store \<Rightarrow> nat \<Rightarrow> string \<Rightarrow> nat option \<Rightarrow> error + folder \<times> store" where
  "updateFolder sch st folderId newName newParentId =
     folder_update sch st folderId newName (orNull newParentId)"

subsection \<open>Deletion\<close>

text \<open>
  A loop whose body may throw: the first exception leaves the loop, with the store as
  the statements before it left it.
\<close>

fun forEachTry :: "('a \<Rightarrow> store \<Rightarrow> ((error + unit) \<times> store) option) \<Rightarrow> 'a list \<Rightarrow> store
    \<Rightarrow> ((error + unit) \<times> store) option" where
  "forEachTry body [] st = Some (Inr (), st)"
| "forEachTry body (x # xs) st =
     (case body x st of
        None \<Rightarrow> None
      | Some (Inl e, st') \<Rightarrow> Some (Inl e, st')
      | Some (Inr u, st') \<Rightarrow> forEachTry body xs st')"

text \<open>
  \<open>deleteFolder\<close> deletes the files of the folder, reads its subfolders, deletes each
  by a nested call, deletes the share links of the folder and then the folder. Every
  exception is logged and thrown again. As for \<open>findChildren\<close>, the first argument
  bounds the depth of nested calls.
\<close>

fun deleteFolder :: "nat \<Rightarrow> store \<Rightarrow> nat \<Rightarrow> ((error + unit) \<times> store) option" where
  "deleteFolder 0 st folderId = None"
| "deleteFolder (Suc n) st folderId =
     (let st1 = file_deleteMany_folder st folderId;
          subfolders = folder_findMany_parent st1 folderId
      in case forEachTry (\<lambda>subfolder s. deleteFolder n s (folder_id subfolder)) subfolders st1 of
           None \<Rightarrow> None
         | Some (Inl e, st2) \<Rightarrow> Some (Inl e, st2)
         | Some (Inr u, st2) \<Rightarrow>
             (let st3 = shareLink_deleteMany_folder st2 folderId
              in case folder_delete st3 folderId of
                   Inl e \<Rightarrow> Some (Inl e, st3)
                 | Inr st4 \<Rightarrow> Some (Inr (), st4)))"

subsection \<open>Share links\<close>


definition findShareLink :: "store \<Rightarrow> nat \<Rightarrow> shareLink option" where
  "findShareLink st shareLinkId = shareLink_findUnique st shareLinkId"

section \<open>The vocabulary of the specification\<close>

text \<open>
  The parent relation of the stored folders, child first, and the descendants of a
  folder as the specification words them: the folders from which the folder is reached
  by following \<open>parentId\<close> one or more times.
\<close>

definition parentRel :: "store \<Rightarrow> (nat \<times> nat) set" where
  "parentRel st = {(c, p). \<exists>f \<in> set (folders st). folder_id f = c \<and> parentId f = Some p}"

definition descendants :: "store \<Rightarrow> nat \<Rightarrow> nat set" where
  "descendants st x = {d. (d, x) \<in> (parentRel st)\<^sup>+}"

text \<open>
  The invariants of the data model. Identifiers are a primary key. Acyclicity: followed
  from any folder, the parent relation reaches \<open>null\<close>; a chain that visits no folder
  twice has at most as many folders as the table, so that many lookups are allowed.
\<close>

definition uniqueIds :: "store \<Rightarrow> bool" where
  "uniqueIds st = distinct (map folder_id (folders st))"

fun climb :: "nat \<Rightarrow> store \<Rightarrow> nat \<Rightarrow> bool" where
  "climb 0 st x = False"
| "climb (Suc n) st x =
     (case folder_findUnique st x of
        None \<Rightarrow> False
      | Some f \<Rightarrow> (case parentId f of None \<Rightarrow> True | Some p \<Rightarrow> climb n st p))"

definition acyclicity :: "store \<Rightarrow> bool" where
  "acyclicity st = list_all (\<lambda>f. climb (length (folders st)) st (folder_id f)) (folders st)"

text \<open>
  The valid move targets as the specification words them: all folders owned by the
  user, minus the folder itself and its descendants.
\<close>

definition validMoveTargets :: "store \<Rightarrow> nat \<Rightarrow> nat \<Rightarrow> folder set" where
  "validMoveTargets st user F =
     {g \<in> set (folders st). userId g = user} - {g. folder_id g \<in> descendants st F \<union> {F}}"

text \<open>
  A folder with its descendants, and a store without the folders of a set, the files
  in them and the share links that target them.
\<close>

definition subtree :: "store \<Rightarrow> nat \<Rightarrow> nat set" where
  "subtree st F = insert F (descendants st F)"

definition without :: "nat set \<Rightarrow> store \<Rightarrow> store" where
  "without S st =
     st\<lparr>folders := filter (\<lambda>f. folder_id f \<notin> S) (folders st),
        files := filter (\<lambda>x. file_folderId x \<notin> S) (files st),
        shareLinks := filter (\<lambda>l. link_folderId l \<notin> S) (shareLinks st)\<rparr>"

text \<open>
  The order of deletion as the specification words it, read from the store as it is
  before the deletion: the files of the folder, then each direct subfolder in the same
  way, then the share links that target the folder, then the folder itself. The first
  argument is the number of levels the order descends.
\<close>

fun deletionOrder :: "nat \<Rightarrow> store \<Rightarrow> nat \<Rightarrow> statement list" where
  "deletionOrder 0 st F = []"
| "deletionOrder (Suc n) st F =
     FileDeleteMany F
     # concat (map (\<lambda>c. deletionOrder n st (folder_id c)) (folder_findMany_parent st F))
     @ [ShareLinkDeleteMany F, FolderDelete F]"

text \<open>The folders below a folder have fewer than \<open>n\<close> levels.\<close>

fun shallow :: "nat \<Rightarrow> store \<Rightarrow> nat \<Rightarrow> bool" where
  "shallow 0 st x = False"
| "shallow (Suc n) st x =
     list_all (\<lambda>c. shallow n st (folder_id c)) (folder_findMany_parent st x)"

text \<open>The store of the specification's scenario, with a second user.\<close>

definition scenario :: store where
  "scenario =
     \<lparr>folders =
        [\<lparr>folder_id = 1, folder_name = ''Home'', userId = 1, parentId = None\<rparr>,
         \<lparr>folder_id = 2, folder_name = ''Docs'', userId = 1, parentId = Some 1\<rparr>,
         \<lparr>folder_id = 3, folder_name = ''Reports'', userId = 1, parentId = Some 2\<rparr>,
         \<lparr>folder_id = 4, folder_name = ''Home'', userId = 2, parentId = None\<rparr>],
      files =
        [\<lparr>file_id = 1, file_name = ''a.txt'', file_path = ''uploads/a'', file_size = 10, file_folderId = 2\<rparr>,
         \<lparr>file_id = 2, file_name = ''b.txt'', file_path = ''uploads/b'', file_size = 20, file_folderId = 3\<rparr>,
         \<lparr>file_id = 3, file_name = ''c.txt'', file_path = ''uploads/c'', file_size = 30, file_folderId = 1\<rparr>],
      shareLinks =
        [\<lparr>link_id = 1, link_folderId = 3, expiresAt = 5\<rparr>,
         \<lparr>link_id = 2, link_folderId = 1, expiresAt = 100\<rparr>],
      folderSeq = 4,
      linkSeq = 2,
      journal = []\<rparr>"

text \<open>The scenario after its folder Docs has been given the parent \<open>p\<close>.\<close>

definition docsMoved :: "nat option \<Rightarrow> store" where
  "docsMoved p =
     scenario\<lparr>folders :=
        [\<lparr>folder_id = 1, folder_name = ''Home'', userId = 1, parentId = None\<rparr>,
         \<lparr>folder_id = 2, folder_name = ''Docs'', userId = 1, parentId = p\<rparr>,
         \<lparr>folder_id = 3, folder_name = ''Reports'', userId = 1, parentId = Some 2\<rparr>,
         \<lparr>folder_id = 4, folder_name = ''Home'', userId = 2, parentId = None\<rparr>],
       journal := [FolderUpdate 2]\<rparr>"

text \<open>
  The parents that a result of \<open>findFolder\<close> holds, nearest first, and the ancestor chain
  of a stored folder read from the store, nearest first, up to a number of steps.
\<close>

fun loaded :: "parentChain \<Rightarrow> folder list" where
  "loaded NotIncluded = []"
| "loaded (Included None) = []"
| "loaded (Included (Some (p, rest))) = p # loaded rest"

fun ancestors :: "nat \<Rightarrow> store \<Rightarrow> folder \<Rightarrow> folder list" where
  "ancestors 0 st f = []"
| "ancestors (Suc n) st f =
     (case parentId f of
        None \<Rightarrow> []
      | Some p \<Rightarrow>
          (case folder_findUnique st p of
             None \<Rightarrow> []
           | Some pf \<Rightarrow> pf # ancestors n st pf))"

text \<open>A store with one user and a chain of six nested folders.\<close>

definition nested :: store where
  "nested =
     \<lparr>folders =
        [\<lparr>folder_id = 1, folder_name = ''Home'', userId = 1, parentId = None\<rparr>,
         \<lparr>folder_id = 2, folder_name = ''a'', userId = 1, parentId = Some 1\<rparr>,
         \<lparr>folder_id = 3, folder_name = ''b'', userId = 1, parentId = Some 2\<rparr>,
         \<lparr>folder_id = 4, folder_name = ''c'', userId = 1, parentId = Some 3\<rparr>,
         \<lparr>folder_id = 5, folder_name = ''d'', userId = 1, parentId = Some 4\<rparr>,
         \<lparr>folder_id = 6, folder_name = ''e'', userId = 1, parentId = Some 5\<rparr>],
      files = [],
      shareLinks = [],
      folderSeq = 6,
      linkSeq = 0,
      journal = []\<rparr>"

text \<open>
  Resolving a share link as the specification words it: the link while the clock is
  before \<open>expiresAt\<close>, \<open>Expired\<close> from then on, \<open>NotFound\<close> for an unknown identifier.
\<close>

datatype resolution = Link shareLink | Expired | NotFound

definition resolveShareLink_spec :: "nat \<Rightarrow> store \<Rightarrow> nat \<Rightarrow> resolution" where
  "resolveShareLink_spec now st shareLinkId =
     (case find (\<lambda>l. link_id l = shareLinkId) (shareLinks st) of
        None \<Rightarrow> NotFound
      | Some l \<Rightarrow> if now < expiresAt l then Link l else Expired)"

text \<open>What the caller of \<open>findShareLink\<close> holds: a link, or \<open>null\<close>.\<close>

definition returned :: "shareLink option \<Rightarrow> resolution" where
  "returned r = (case r of None \<Rightarrow> NotFound | Some l \<Rightarrow> Link l)"

text \<open>
  The folders of a user that have no parent, and the conditions under which the
  specification lets a folder or a share link be created.
\<close>

definition rootless :: "store \<Rightarrow> nat \<Rightarrow> folder list" where
  "rootless st user = filter (\<lambda>f. userId f = user \<and> parentId f = None) (folders st)"

definition nameConflict :: "store \<Rightarrow> string \<Rightarrow> nat \<Rightarrow> nat option \<Rightarrow> bool" where
  "nameConflict st name user parent =
     list_ex (\<lambda>f. folder_name f = name \<and> parentId f = parent \<and> userId f = user) (folders st)"

definition ownedParent :: "store \<Rightarrow> nat \<Rightarrow> nat option \<Rightarrow> bool" where
  "ownedParent st user parent =
     (case parent of
        None \<Rightarrow> False
      | Some p \<Rightarrow> list_ex (\<lambda>f. folder_id f = p \<and> userId f = user) (folders st))"

definition createShareLink_allowed :: "nat \<Rightarrow> store \<Rightarrow> nat \<Rightarrow> nat \<Rightarrow> bool" where
  "createShareLink_allowed now st folderId expires =
     (list_ex (\<lambda>f. folder_id f = folderId) (folders st) \<and> now < expires)"

text \<open>
  Two schemas for the examples. The first declares no constraint.
\<close>

definition unconstrained :: schema where
  "unconstrained = \<lparr>folderOk = (\<lambda>st row. True), linkOk = (\<lambda>st row. True)\<rparr>"

text \<open>
  Modelled from the spec: the schema file is not among the sources. The second schema
  declares what a relational schema can declare for the data model of the
  specification: the parent of a folder and the target of a share link are stored
  folders (foreign keys), and no two folders under one parent share a name (a unique
  index, which leaves folders without parent alone).
\<close>

definition relational :: schema where
  "relational =
     \<lparr>folderOk = (\<lambda>st row.
        (case parentId row of
           None \<Rightarrow> True
         | Some p \<Rightarrow>
             list_ex (\<lambda>g. folder_id g = p) (folders st)
             \<and> \<not> list_ex (\<lambda>g. folder_id g \<noteq> folder_id row \<and> parentId g = Some p
                                \<and> folder_name g = folder_name row) (folders st))),
      linkOk = (\<lambda>st row. list_ex (\<lambda>g. folder_id g = link_folderId row) (folders st))\<rparr>"

section \<open>The descendant walk\<close>

subsection \<open>What a returning walk has collected\<close>

lemma children_ids:
  "folder_id ` set (folder_findMany_parent st x) = {c. (c, x) \<in> parentRel st}"
  by (auto simp: folder_findMany_parent_def parentRel_def)

lemma child_row:
  "(c, x) \<in> parentRel st \<Longrightarrow> \<exists>f \<in> set (folder_findMany_parent st x). folder_id f = c"
  by (auto simp: parentRel_def folder_findMany_parent_def)

lemma descendants_unfold:
  "descendants st x = (\<Union>c \<in> {c. (c, x) \<in> parentRel st}. insert c (descendants st c))"
proof -
  have "(d, x) \<in> (parentRel st)\<^sup>+ \<longleftrightarrow>
        (\<exists>c. (c, x) \<in> parentRel st \<and> (d = c \<or> (d, c) \<in> (parentRel st)\<^sup>+))" for d
  proof
    assume "(d, x) \<in> (parentRel st)\<^sup>+"
    then obtain c where "(d, c) \<in> (parentRel st)\<^sup>*" "(c, x) \<in> parentRel st"
      by (meson tranclD2)
    then show "\<exists>c. (c, x) \<in> parentRel st \<and> (d = c \<or> (d, c) \<in> (parentRel st)\<^sup>+)"
      by (auto dest: rtranclD)
  next
    assume "\<exists>c. (c, x) \<in> parentRel st \<and> (d = c \<or> (d, c) \<in> (parentRel st)\<^sup>+)"
    then show "(d, x) \<in> (parentRel st)\<^sup>+" by auto
  qed
  then show ?thesis by (auto simp: descendants_def)
qed

lemma forEach_children:
  assumes IH: "\<And>x acc r. findChildren n st x acc = Some r \<Longrightarrow> set r = set acc \<union> descendants st x"
  shows "forEach (\<lambda>s ds. findChildren n st (folder_id s) (ds @ [folder_id s])) cs acc = Some r \<Longrightarrow>
         set r = set acc \<union> (\<Union>c \<in> folder_id ` set cs. insert c (descendants st c))"
proof (induction cs arbitrary: acc)
  case Nil
  then show ?case by simp
next
  case (Cons c cs)
  from Cons.prems obtain a where a: "findChildren n st (folder_id c) (acc @ [folder_id c]) = Some a"
    and r: "forEach (\<lambda>s ds. findChildren n st (folder_id s) (ds @ [folder_id s])) cs a = Some r"
    by (auto split: option.splits)
  from IH [OF a] Cons.IH [OF r] show ?case by auto
qed

lemma findChildren_set:
  "findChildren n st x acc = Some r \<Longrightarrow> set r = set acc \<union> descendants st x"
proof (induction n arbitrary: x acc r)
  case 0
  then show ?case by simp
next
  case (Suc n)
  have "set r = set acc \<union> (\<Union>c \<in> folder_id ` set (folder_findMany_parent st x). insert c (descendants st c))"
    using Suc.prems forEach_children [of n st _ acc r, OF Suc.IH] by simp
  then show ?case
    unfolding children_ids descendants_unfold [of st x] by simp
qed

subsection \<open>Levels: when the walk returns\<close>

lemma forEach_total:
  "(\<And>c s. c \<in> set cs \<Longrightarrow> \<exists>s'. body c s = Some s') \<Longrightarrow> \<exists>r. forEach body cs s = Some r"
proof (induction cs arbitrary: s)
  case Nil
  then show ?case by simp
next
  case (Cons c cs)
  from Cons.prems [of c s] obtain s' where "body c s = Some s'" by auto
  moreover from Cons.IH [of s'] Cons.prems obtain r where "forEach body cs s' = Some r" by auto
  ultimately show ?case by simp
qed

lemma forEach_each:
  "forEach body cs s = Some r \<Longrightarrow> c \<in> set cs \<Longrightarrow> \<exists>s1 s2. body c s1 = Some s2"
proof (induction cs arbitrary: s)
  case Nil
  then show ?case by simp
next
  case (Cons a cs)
  from Cons.prems(1) obtain s' where s': "body a s = Some s'" "forEach body cs s' = Some r"
    by (auto split: option.splits)
  from Cons.prems(2) show ?case
  proof (cases "c = a")
    case True
    with s'(1) show ?thesis by blast
  next
    case False
    with Cons.prems(2) have "c \<in> set cs" by simp
    with Cons.IH [OF s'(2)] show ?thesis by blast
  qed
qed

lemma shallow_Suc: "shallow n st x \<Longrightarrow> shallow (Suc n) st x"
proof (induction n arbitrary: x)
  case 0
  then show ?case by simp
next
  case (Suc n)
  from Suc.prems have "list_all (\<lambda>c. shallow n st (folder_id c)) (folder_findMany_parent st x)"
    by simp
  then have "list_all (\<lambda>c. shallow (Suc n) st (folder_id c)) (folder_findMany_parent st x)"
    unfolding list_all_iff using Suc.IH by blast
  then show ?case unfolding shallow.simps(2) [of "Suc n"] .
qed

lemma shallow_more: "n \<le> m \<Longrightarrow> shallow n st x \<Longrightarrow> shallow m st x"
  by (induction m) (auto simp: le_Suc_eq shallow_Suc simp del: shallow.simps)

lemma shallow_returns: "shallow n st x \<Longrightarrow> \<exists>r. findChildren n st x acc = Some r"
proof (induction n arbitrary: x acc)
  case 0
  then show ?case by simp
next
  case (Suc n)
  have "\<exists>s'. findChildren n st (folder_id c) (s @ [folder_id c]) = Some s'"
    if "c \<in> set (folder_findMany_parent st x)" for c s
    using Suc.prems that by (intro Suc.IH) (simp add: list_all_iff)
  then show ?case
    using forEach_total [of "folder_findMany_parent st x"
        "\<lambda>subfolder ds. findChildren n st (folder_id subfolder) (ds @ [folder_id subfolder])" acc]
    by simp
qed

lemma returns_shallow: "findChildren n st x acc = Some r \<Longrightarrow> shallow n st x"
proof (induction n arbitrary: x acc r)
  case 0
  then show ?case by simp
next
  case (Suc n)
  have "shallow n st (folder_id c)" if "c \<in> set (folder_findMany_parent st x)" for c
  proof -
    from Suc.prems that obtain s1 s2
      where "findChildren n st (folder_id c) (s1 @ [folder_id c]) = Some s2"
      by (auto dest: forEach_each)
    then show ?thesis by (rule Suc.IH)
  qed
  then show ?case by (simp add: list_all_iff)
qed

lemma cycle_child:
  assumes "(x, x) \<in> (parentRel st)\<^sup>+"
  shows "\<exists>c. (c, x) \<in> parentRel st \<and> (c, c) \<in> (parentRel st)\<^sup>+"
proof -
  from assms obtain c where c: "(x, c) \<in> (parentRel st)\<^sup>*" "(c, x) \<in> parentRel st"
    by (auto dest: tranclD2)
  then have "(c, c) \<in> (parentRel st)\<^sup>+" by auto
  with c(2) show ?thesis by blast
qed

lemma cycle_not_shallow: "(x, x) \<in> (parentRel st)\<^sup>+ \<Longrightarrow> \<not> shallow n st x"
proof (induction n arbitrary: x)
  case 0
  then show ?case by simp
next
  case (Suc n)
  from cycle_child [OF Suc.prems] obtain c
    where c: "(c, x) \<in> parentRel st" "(c, c) \<in> (parentRel st)\<^sup>+" by blast
  from child_row [OF c(1)] obtain f
    where f: "f \<in> set (folder_findMany_parent st x)" "folder_id f = c" by blast
  from Suc.IH [OF c(2)] f show ?case by (auto simp: list_all_iff)
qed

subsection \<open>Stores that keep the invariants\<close>

lemma find_distinct_member:
  "distinct (map k xs) \<Longrightarrow> x \<in> set xs \<Longrightarrow> find (\<lambda>y. k y = k x) xs = Some x"
  by (induction xs) (auto simp: image_iff)

lemma findUnique_member:
  "uniqueIds st \<Longrightarrow> f \<in> set (folders st) \<Longrightarrow> folder_findUnique st (folder_id f) = Some f"
  unfolding uniqueIds_def folder_findUnique_def by (rule find_distinct_member)

lemma climb_child:
  "uniqueIds st \<Longrightarrow> (c, p) \<in> parentRel st \<Longrightarrow> climb (Suc n) st c = climb n st p"
  by (auto simp: parentRel_def findUnique_member)

lemma climb_Suc: "climb n st x \<Longrightarrow> climb (Suc n) st x"
proof (induction n arbitrary: x)
  case 0
  then show ?case by simp
next
  case (Suc n)
  show ?case
  proof (cases "folder_findUnique st x")
    case None
    with Suc.prems show ?thesis by simp
  next
    case found: (Some f)
    show ?thesis
    proof (cases "parentId f")
      case None
      with found show ?thesis by simp
    next
      case (Some p)
      with found Suc.prems have "climb n st p" by simp
      then have "climb (Suc n) st p" by (rule Suc.IH)
      with found Some show ?thesis by simp
    qed
  qed
qed

lemma climb_mono: "n \<le> m \<Longrightarrow> climb n st x \<Longrightarrow> climb m st x"
  by (induction m) (auto simp: le_Suc_eq climb_Suc simp del: climb.simps)

lemma acyclicity_member:
  "acyclicity st \<Longrightarrow> f \<in> set (folders st) \<Longrightarrow> climb (length (folders st)) st (folder_id f)"
  by (simp add: acyclicity_def list_all_iff)

lemma deep_folder_shallow:
  assumes "uniqueIds st" "acyclicity st"
  shows "\<not> climb (length (folders st) - k) st x \<Longrightarrow> shallow (Suc k) st x"
proof (induction k arbitrary: x)
  case 0
  have "folder_findMany_parent st x = []"
  proof (rule ccontr)
    assume "folder_findMany_parent st x \<noteq> []"
    then obtain c where c: "c \<in> set (folders st)" "parentId c = Some x"
      by (auto simp: folder_findMany_parent_def filter_empty_conv)
    then have rel: "(folder_id c, x) \<in> parentRel st" by (auto simp: parentRel_def)
    from c have "climb (length (folders st)) st (folder_id c)"
      using assms(2) by (simp add: acyclicity_member)
    moreover from c have "length (folders st) = Suc (length (folders st) - 1)"
      by (cases "folders st") auto
    ultimately have "climb (length (folders st) - 1) st x"
      using climb_child [OF assms(1) rel] by metis
    then have "climb (length (folders st)) st x"
      by (rule climb_mono [rotated]) simp
    with 0 show False by simp
  qed
  then show ?case by simp
next
  case (Suc k)
  have "shallow (Suc k) st (folder_id c)" if "c \<in> set (folder_findMany_parent st x)" for c
  proof (rule Suc.IH)
    from that have c: "c \<in> set (folders st)" "parentId c = Some x"
      by (auto simp: folder_findMany_parent_def)
    then have rel: "(folder_id c, x) \<in> parentRel st" by (auto simp: parentRel_def)
    show "\<not> climb (length (folders st) - k) st (folder_id c)"
    proof
      assume up: "climb (length (folders st) - k) st (folder_id c)"
      then obtain m where m: "length (folders st) - k = Suc m"
        by (cases "length (folders st) - k") auto
      with up have "climb m st x" using climb_child [OF assms(1) rel] by simp
      moreover from m have "m = length (folders st) - Suc k" by simp
      ultimately show False using Suc.prems by simp
    qed
  qed
  then show ?case
    unfolding shallow.simps(2) [of "Suc k"] list_all_iff by blast
qed

lemma wellformed_shallow:
  assumes "uniqueIds st" "acyclicity st" "length (folders st) < n"
  shows "shallow n st x"
proof -
  have "shallow (Suc (length (folders st))) st x"
    using deep_folder_shallow [OF assms(1,2), of "length (folders st)" x] by simp
  moreover from assms(3) have "Suc (length (folders st)) \<le> n" by simp
  ultimately show ?thesis by (rule shallow_more [rotated])
qed

lemma parentRel_functional:
  "uniqueIds st \<Longrightarrow> (c, p) \<in> parentRel st \<Longrightarrow> (c, q) \<in> parentRel st \<Longrightarrow> p = q"
  unfolding parentRel_def uniqueIds_def
  by (auto simp: distinct_map inj_on_def)

lemma parentRel_stored:
  "(c, p) \<in> (parentRel st)\<^sup>+ \<Longrightarrow> c \<in> folder_id ` set (folders st)"
  by (induction rule: trancl.induct) (auto simp: parentRel_def)

lemma climb_ancestor:
  assumes "uniqueIds st"
  shows "(d, x) \<in> (parentRel st)\<^sup>+ \<Longrightarrow> climb n st d \<Longrightarrow> \<exists>m<n. climb m st x"
proof (induction arbitrary: n rule: trancl.induct)
  case (r_into_trancl a b)
  then obtain m where "n = Suc m" by (cases n) auto
  with r_into_trancl show ?case using climb_child [OF assms, of a b m] by auto
next
  case (trancl_into_trancl a b c)
  from trancl_into_trancl.IH [OF trancl_into_trancl.prems] obtain m where m: "m < n" "climb m st b"
    by auto
  then obtain k where k: "m = Suc k" by (cases m) auto
  with m have "climb k st c"
    using climb_child [OF assms trancl_into_trancl.hyps(2), of k] by simp
  moreover from k m have "k < n" by simp
  ultimately show ?case by blast
qed

lemma no_cycle:
  assumes "uniqueIds st" "acyclicity st"
  shows "(x, x) \<notin> (parentRel st)\<^sup>+"
proof
  assume cyc: "(x, x) \<in> (parentRel st)\<^sup>+"
  have never: "\<not> climb n st x" for n
  proof (induction n rule: less_induct)
    case (less n)
    show ?case
    proof
      assume "climb n st x"
      from climb_ancestor [OF assms(1) cyc this] less.IH show False by auto
    qed
  qed
  from parentRel_stored [OF cyc] obtain f where "f \<in> set (folders st)" "folder_id f = x" by auto
  with acyclicity_member [OF assms(2)] never show False by auto
qed

lemma scenario_uniqueIds: "uniqueIds scenario"
  by (simp add: uniqueIds_def scenario_def)

lemma scenario_acyclicity: "acyclicity scenario"
  by code_simp

lemma scenario_size: "length (folders scenario) < 5"
  by (simp add: scenario_def)

lemma scenario_descendants: "findDescendantFolders 5 scenario 1 = Some [2, 3]"
  by code_simp

text \<open>
  C7. On a store that keeps the invariants of the data model (unique identifiers,
  acyclicity), \<open>findDescendantFolders\<close> returns for every folder \<open>F\<close> as soon as the bound
  on the nesting exceeds the number of stored folders; the list it returns is a finite
  set, does not contain \<open>F\<close>, and holds exactly the folders from which \<open>F\<close> is reached by
  following \<open>parentId\<close> one or more times.
\<close>

theorem findDescendantFolders_reachable:
  assumes "uniqueIds st" "acyclicity st" "length (folders st) < n"
  shows "\<exists>ds. findDescendantFolders n st F = Some ds \<and> finite (set ds) \<and> F \<notin> set ds
            \<and> set ds = descendants st F"
proof -
  have "shallow n st F" using assms by (rule wellformed_shallow)
  then obtain ds where ds: "findChildren n st F [] = Some ds"
    using shallow_returns by blast
  then have "set ds = descendants st F" by (auto dest: findChildren_set)
  moreover have "F \<notin> descendants st F"
    using no_cycle [OF assms(1,2)] by (simp add: descendants_def)
  ultimately show ?thesis using ds by (simp add: findDescendantFolders_def)
qed

theorem findDescendantFolders_reachable_witness:
  "uniqueIds scenario \<and> acyclicity scenario \<and> length (folders scenario) < 5
   \<and> findDescendantFolders 5 scenario 1 = Some [2, 3]
   \<and> 1 \<notin> set [2, 3::nat] \<and> set [2, 3] = descendants scenario 1"
proof -
  from findDescendantFolders_reachable [OF scenario_uniqueIds scenario_acyclicity scenario_size, of 1]
    scenario_descendants
  have "1 \<notin> set [2, 3::nat] \<and> set [2, 3] = descendants scenario 1"
    by (auto simp del: set_simps)
  with scenario_uniqueIds scenario_acyclicity scenario_size scenario_descendants
  show ?thesis by blast
qed

section \<open>Move targets\<close>

text \<open>
  C5. Whenever \<open>findParentFolders\<close> returns, for any user and folder \<open>F\<close>, its result
  is exactly the folders owned by the user minus \<open>F\<close> and its descendants: a folder of
  the user is in the result if and only if it is not \<open>F\<close> and not a descendant of \<open>F\<close>.
  It returns on every store that keeps the invariants of the data model.
\<close>

theorem findParentFolders_validMoveTargets:
  "(\<forall>fs. findParentFolders n st user F = Some fs \<longrightarrow>
       set fs = validMoveTargets st user F
       \<and> (\<forall>g \<in> set (folders st). userId g = user \<longrightarrow>
             (g \<in> set fs \<longleftrightarrow> folder_id g \<noteq> F \<and> folder_id g \<notin> descendants st F)))
   \<and> (uniqueIds st \<and> acyclicity st \<and> length (folders st) < n \<longrightarrow>
         (\<exists>fs. findParentFolders n st user F = Some fs))"
proof -
  have targets: "set fs = validMoveTargets st user F
       \<and> (\<forall>g \<in> set (folders st). userId g = user \<longrightarrow>
             (g \<in> set fs \<longleftrightarrow> folder_id g \<noteq> F \<and> folder_id g \<notin> descendants st F))"
    if "findParentFolders n st user F = Some fs" for fs
  proof -
    from that obtain ds where ds: "findChildren n st F [] = Some ds"
      and fs: "fs = filter (\<lambda>f. userId f = user \<and> folder_id f \<notin> set (ds @ [F])) (folders st)"
      by (auto simp: findParentFolders_def findDescendantFolders_def split: option.splits)
    from ds have "set ds = descendants st F" by (auto dest: findChildren_set)
    with fs show ?thesis by (auto simp: validMoveTargets_def)
  qed
  have returns: "\<exists>fs. findParentFolders n st user F = Some fs"
    if "uniqueIds st \<and> acyclicity st \<and> length (folders st) < n"
  proof -
    from that have "shallow n st F" by (intro wellformed_shallow) simp_all
    then obtain ds where "findChildren n st F [] = Some ds" using shallow_returns by blast
    then show ?thesis by (simp add: findParentFolders_def findDescendantFolders_def)
  qed
  from targets returns show ?thesis by blast
qed

lemma scenario_targets:
  "findParentFolders 5 scenario 1 2 =
     Some [\<lparr>folder_id = 1, folder_name = ''Home'', userId = 1, parentId = None\<rparr>]"
  by code_simp

theorem findParentFolders_validMoveTargets_witness:
  "uniqueIds scenario \<and> acyclicity scenario \<and> length (folders scenario) < 5
   \<and> findParentFolders 5 scenario 1 2 =
       Some [\<lparr>folder_id = 1, folder_name = ''Home'', userId = 1, parentId = None\<rparr>]
   \<and> set [\<lparr>folder_id = 1, folder_name = ''Home'', userId = 1, parentId = None\<rparr>]
       = validMoveTargets scenario 1 2
   \<and> \<lparr>folder_id = 3, folder_name = ''Reports'', userId = 1, parentId = Some 2\<rparr> \<in> set (folders scenario)
   \<and> 3 \<in> descendants scenario 2"
proof -
  note t = findParentFolders_validMoveTargets [of 5 scenario 1 2]
  have stored: "\<lparr>folder_id = 3, folder_name = ''Reports'', userId = 1, parentId = Some 2\<rparr>
      \<in> set (folders scenario)"
    by (simp add: scenario_def)
  from t scenario_targets have eq: "set [\<lparr>folder_id = 1, folder_name = ''Home'', userId = 1, parentId = None\<rparr>]
       = validMoveTargets scenario 1 2" by blast
  from t scenario_targets stored
  have "(\<lparr>folder_id = 3, folder_name = ''Reports'', userId = 1, parentId = Some 2\<rparr>
          \<in> set [\<lparr>folder_id = 1, folder_name = ''Home'', userId = (1::nat), parentId = None\<rparr>])
        \<longleftrightarrow> (3::nat) \<noteq> 2 \<and> 3 \<notin> descendants scenario 2"
    by (auto simp del: set_simps)
  then have "3 \<in> descendants scenario 2" by simp
  with eq stored scenario_targets scenario_uniqueIds scenario_acyclicity scenario_size
  show ?thesis by blast
qed

section \<open>The ancestor chain of \<open>findFolder\<close>\<close>

lemma loaded_includeParent: "loaded (includeParent n st f) = ancestors n st f"
  by (induction n arbitrary: f) (auto split: option.splits)

lemma take_ancestors: "take k (ancestors n st f) = ancestors (min k n) st f"
proof (induction n arbitrary: k f)
  case 0
  then show ?case by simp
next
  case (Suc n)
  show ?case
  proof (cases k)
    case 0
    then show ?thesis by simp
  next
    case (Suc j)
    then show ?thesis using Suc.IH [of j] by (auto split: option.splits)
  qed
qed

lemma findUnique_Some:
  "folder_findUnique st i = Some f \<Longrightarrow> f \<in> set (folders st) \<and> folder_id f = i"
  by (auto simp: folder_findUnique_def find_Some_iff)

lemma ancestors_Suc_member:
  "a \<in> set (ancestors (Suc n) st f) \<Longrightarrow>
   \<exists>p pf. parentId f = Some p \<and> folder_findUnique st p = Some pf
      \<and> (a = pf \<or> a \<in> set (ancestors n st pf))"
  by (cases "parentId f"; cases "folder_findUnique st (the (parentId f))") auto

lemma ancestors_stored: "a \<in> set (ancestors n st f) \<Longrightarrow> a \<in> set (folders st)"
proof (induction n arbitrary: f)
  case 0
  then show ?case by simp
next
  case (Suc n)
  from ancestors_Suc_member [OF Suc.prems] Suc.IH show ?case
    by (auto dest: findUnique_Some)
qed

lemma ancestors_above:
  "f \<in> set (folders st) \<Longrightarrow> a \<in> set (ancestors n st f) \<Longrightarrow>
   (folder_id f, folder_id a) \<in> (parentRel st)\<^sup>+"
proof (induction n arbitrary: f)
  case 0
  then show ?case by simp
next
  case (Suc n)
  from ancestors_Suc_member [OF Suc.prems(2)] obtain p pf
    where p: "parentId f = Some p" "folder_findUnique st p = Some pf"
    and a: "a = pf \<or> a \<in> set (ancestors n st pf)"
    by blast
  from p(2) have pf: "pf \<in> set (folders st)" "folder_id pf = p" by (auto dest: findUnique_Some)
  with p(1) Suc.prems(1) have step: "(folder_id f, folder_id pf) \<in> parentRel st"
    by (auto simp: parentRel_def)
  from a show ?case
  proof
    assume "a = pf"
    with step show ?thesis by auto
  next
    assume "a \<in> set (ancestors n st pf)"
    from Suc.IH [OF pf(1) this] step show ?thesis by auto
  qed
qed

lemma ancestors_distinct:
  assumes "uniqueIds st" "acyclicity st"
  shows "f \<in> set (folders st) \<Longrightarrow> distinct (ancestors n st f)"
proof (induction n arbitrary: f)
  case 0
  then show ?case by simp
next
  case (Suc n)
  show ?case
  proof (cases "parentId f")
    case None
    then show ?thesis by simp
  next
    case (Some p)
    show ?thesis
    proof (cases "folder_findUnique st p")
      case None
      with Some show ?thesis by simp
    next
      case found: (Some pf)
      then have pf: "pf \<in> set (folders st)" by (auto dest: findUnique_Some)
      have "pf \<notin> set (ancestors n st pf)"
        using ancestors_above [OF pf, of pf n] no_cycle [OF assms, of "folder_id pf"] by auto
      with Suc.IH [OF pf] Some found show ?thesis by simp
    qed
  qed
qed

lemma beyond_take:
  "distinct xs \<Longrightarrow> k \<le> i \<Longrightarrow> i < length xs \<Longrightarrow> xs ! i \<notin> set (take k xs)"
  by (auto simp: in_set_conv_nth nth_eq_iff_index_eq)

text \<open>
  C10. For every stored folder \<open>F\<close>, \<open>findFolder\<close> returns the stored row of \<open>F\<close> with
  its ancestor chain cut after four parents: the parents it holds are the first four of
  the chain of that row (fewer when the chain is shorter), and on a store that keeps the
  invariants every ancestor beyond the fourth is a stored folder that the result does
  not hold.
\<close>

theorem findFolder_four_parents:
  assumes "F \<in> folder_id ` set (folders st)" "4 \<le> n"
  shows "\<exists>v. findFolder st F = Some v \<and> folder_findUnique st F = Some (view_folder v)
           \<and> view_folder v \<in> set (folders st) \<and> folder_id (view_folder v) = F
           \<and> loaded (view_parent v) = take 4 (ancestors n st (view_folder v))
           \<and> (uniqueIds st \<and> acyclicity st \<longrightarrow>
                (\<forall>i. 4 \<le> i \<and> i < length (ancestors n st (view_folder v)) \<longrightarrow>
                   ancestors n st (view_folder v) ! i \<in> set (folders st)
                   \<and> ancestors n st (view_folder v) ! i \<notin> set (loaded (view_parent v))))"
proof -
  from assms(1) obtain f where f: "folder_findUnique st F = Some f"
    by (cases "folder_findUnique st F") (auto simp: folder_findUnique_def find_None_iff)
  then have stored: "f \<in> set (folders st)" "folder_id f = F" by (auto dest: findUnique_Some)
  define v where "v = \<lparr>view_folder = f,
                view_subfolders = folder_findMany_parent st F,
                view_files = filter (\<lambda>x. file_folderId x = F) (files st),
                view_parent = includeParent (Suc (Suc (Suc (Suc 0)))) st f\<rparr>"
  have "findFolder st F = Some v" using f by (simp add: findFolder_def v_def)
  moreover have "folder_findUnique st F = Some (view_folder v)" using f by (simp add: v_def)
  moreover have "view_folder v \<in> set (folders st)" using stored by (simp add: v_def)
  moreover have "folder_id (view_folder v) = F" using stored by (simp add: v_def)
  moreover have four: "loaded (view_parent v) = take 4 (ancestors n st (view_folder v))"
    using assms(2) unfolding v_def
    by (simp only: folderView.simps loaded_includeParent take_ancestors)
       (simp add: min_def eval_nat_numeral)
  moreover have "ancestors n st (view_folder v) ! i \<in> set (folders st)
                   \<and> ancestors n st (view_folder v) ! i \<notin> set (loaded (view_parent v))"
    if "uniqueIds st" "acyclicity st" "4 \<le> i" "i < length (ancestors n st (view_folder v))" for i
  proof
    show "ancestors n st (view_folder v) ! i \<in> set (folders st)"
      using that(4) by (auto intro: ancestors_stored nth_mem)
    have "distinct (ancestors n st (view_folder v))"
      using ancestors_distinct [OF that(1,2) stored(1)] by (simp add: v_def)
    then show "ancestors n st (view_folder v) ! i \<notin> set (loaded (view_parent v))"
      unfolding four using that(3,4) by (rule beyond_take)
  qed
  ultimately show ?thesis by blast
qed

lemma nested_view:
  "map_option (\<lambda>v. map folder_id (loaded (view_parent v))) (findFolder nested 6) = Some [5, 4, 3, 2]"
  by code_simp

lemma nested_chain:
  "map_option (\<lambda>v. map folder_id (ancestors 6 nested (view_folder v))) (findFolder nested 6)
     = Some [5, 4, 3, 2, 1]"
  by code_simp

lemma nested_stored: "6 \<in> folder_id ` set (folders nested)"
  by (simp add: nested_def)

lemma nested_invariants: "uniqueIds nested \<and> acyclicity nested"
  by code_simp

theorem findFolder_four_parents_witness:
  "6 \<in> folder_id ` set (folders nested) \<and> (4::nat) \<le> 6
   \<and> uniqueIds nested \<and> acyclicity nested
   \<and> (\<exists>v. findFolder nested 6 = Some v \<and> folder_findUnique nested 6 = Some (view_folder v)
           \<and> view_folder v \<in> set (folders nested) \<and> folder_id (view_folder v) = 6
           \<and> loaded (view_parent v) = take 4 (ancestors 6 nested (view_folder v))
           \<and> length (ancestors 6 nested (view_folder v)) = 5
           \<and> ancestors 6 nested (view_folder v) ! 4 \<in> set (folders nested)
           \<and> ancestors 6 nested (view_folder v) ! 4 \<notin> set (loaded (view_parent v)))"
proof -
  from findFolder_four_parents [OF nested_stored, of 6] nested_invariants
  obtain v where v: "findFolder nested 6 = Some v" "folder_findUnique nested 6 = Some (view_folder v)"
      "view_folder v \<in> set (folders nested)" "folder_id (view_folder v) = 6"
      "loaded (view_parent v) = take 4 (ancestors 6 nested (view_folder v))"
    and beyond: "\<And>i. 4 \<le> i \<Longrightarrow> i < length (ancestors 6 nested (view_folder v)) \<Longrightarrow>
          ancestors 6 nested (view_folder v) ! i \<in> set (folders nested)
          \<and> ancestors 6 nested (view_folder v) ! i \<notin> set (loaded (view_parent v))"
    by auto
  from nested_chain v(1) have "map folder_id (ancestors 6 nested (view_folder v)) = [5, 4, 3, 2, 1]"
    by simp
  then have "length (map folder_id (ancestors 6 nested (view_folder v))) = length [5, 4, 3, 2, 1::nat]"
    by (rule arg_cong)
  then have len: "length (ancestors 6 nested (view_folder v)) = 5"
    by simp
  with beyond [of 4] v nested_stored nested_invariants show ?thesis by auto
qed

section \<open>Finding a share link\<close>

text \<open>
  C4 as stated fails: the link of the scenario that expires at 5 is returned at time 10,
  where the specification answers \<open>Expired\<close>.
\<close>

theorem findShareLink_expired_counterexample:
  "findShareLink scenario 1 = Some \<lparr>link_id = 1, link_folderId = 3, expiresAt = 5\<rparr>
   \<and> resolveShareLink_spec 10 scenario 1 = Expired
   \<and> returned (findShareLink scenario 1) \<noteq> resolveShareLink_spec 10 scenario 1"
  by (simp add: findShareLink_def shareLink_findUnique_def resolveShareLink_spec_def returned_def
      scenario_def)

text \<open>
  C4, amended. \<open>findShareLink\<close> returns the stored link with the given identifier
  whenever there is one, expired or not, and \<open>null\<close> exactly when there is none; it does
  not read the clock. The three outcomes of the specification are what the caller
  obtains by comparing the \<open>expiresAt\<close> of the returned link with the current time.
\<close>

theorem findShareLink_ignores_expiry:
  "(findShareLink st L = None \<longleftrightarrow> L \<notin> link_id ` set (shareLinks st))
   \<and> (\<forall>l. findShareLink st L = Some l \<longrightarrow> l \<in> set (shareLinks st) \<and> link_id l = L)
   \<and> resolveShareLink_spec now st L =
       (case findShareLink st L of
          None \<Rightarrow> NotFound
        | Some l \<Rightarrow> if now < expiresAt l then Link l else Expired)"
  by (auto simp: findShareLink_def shareLink_findUnique_def resolveShareLink_spec_def
      find_None_iff find_Some_iff)

theorem findShareLink_ignores_expiry_witness:
  "findShareLink scenario 1 = Some \<lparr>link_id = 1, link_folderId = 3, expiresAt = 5\<rparr>
   \<and> \<lparr>link_id = 1, link_folderId = 3, expiresAt = 5\<rparr> \<in> set (shareLinks scenario)
   \<and> link_id \<lparr>link_id = 1, link_folderId = 3, expiresAt = 5\<rparr> = 1
   \<and> findShareLink scenario 7 = None
   \<and> 7 \<notin> link_id ` set (shareLinks scenario)"
proof -
  have a: "findShareLink scenario 1 = Some \<lparr>link_id = 1, link_folderId = 3, expiresAt = 5\<rparr>"
    by (simp add: findShareLink_def shareLink_findUnique_def scenario_def)
  have b: "7 \<notin> link_id ` set (shareLinks scenario)"
    by (simp add: scenario_def)
  from findShareLink_ignores_expiry [of scenario 1 0] findShareLink_ignores_expiry [of scenario 7 0] a b
  show ?thesis by simp
qed

section \<open>Updating a folder\<close>

lemma find_map_replace:
  assumes "\<And>x. k (g x) = k x"
  shows "find (\<lambda>x. k x = i) (map g xs) = map_option g (find (\<lambda>x. k x = i) xs)"
  by (induction xs) (auto simp: assms)

lemma folder_update_result:
  "folder_update sch st F n p =
     (case folder_findUnique st F of
        None \<Rightarrow> Inl RecordNotFound
      | Some old \<Rightarrow>
          if folderOk sch st (old\<lparr>folder_name := n, parentId := p\<rparr>)
          then Inr (old\<lparr>folder_name := n, parentId := p\<rparr>,
                    st\<lparr>folders := map (\<lambda>f. if folder_id f = F then old\<lparr>folder_name := n, parentId := p\<rparr> else f)
                                     (folders st),
                       journal := journal st @ [FolderUpdate F]\<rparr>)
          else Inl ConstraintViolation)"
  by (simp add: folder_update_def Let_def split: option.splits)

lemma findUnique_Some_id: "folder_findUnique st i = Some f \<Longrightarrow> folder_id f = i"
  by (auto simp: folder_findUnique_def find_Some_iff)

lemma folder_update_lookup:
  assumes "folder_update sch st F n p = Inr (row, st')"
  shows "folder_findUnique st' F = Some row"
proof -
  from assms obtain old where old: "folder_findUnique st F = Some old"
    and row: "row = old\<lparr>folder_name := n, parentId := p\<rparr>"
    and st': "folders st' = map (\<lambda>f. if folder_id f = F then row else f) (folders st)"
    by (auto simp: folder_update_result split: option.splits if_splits)
  from findUnique_Some_id [OF old] have id: "folder_id row = F" by (simp add: row)
  have "find (\<lambda>x. folder_id x = F) (map (\<lambda>f. if folder_id f = F then row else f) (folders st))
        = map_option (\<lambda>f. if folder_id f = F then row else f) (find (\<lambda>x. folder_id x = F) (folders st))"
    by (rule find_map_replace) (simp add: id)
  with old findUnique_Some_id [OF old] show ?thesis
    by (simp add: folder_findUnique_def st')
qed

lemma scenario_move:
  "p \<in> {None, Some 2, Some 3} \<Longrightarrow>
   updateFolder relational scenario 2 ''Docs'' p =
     Inr (\<lparr>folder_id = 2, folder_name = ''Docs'', userId = 1, parentId = p\<rparr>, docsMoved p)"
  by (auto simp: updateFolder_def folder_update_result folder_findUnique_def orNull_def
        relational_def scenario_def docsMoved_def)

lemma scenario_targets_of_docs:
  "map_option (map folder_id) (findParentFolders 5 scenario 1 2) = Some [1]"
  by code_simp

text \<open>
  C1 as stated fails: in the scenario the only valid move target of Docs is Home, and
  yet moving Docs under its descendant Reports, or under itself, succeeds and changes
  the parent, also with a schema that enforces foreign keys and unique sibling names.
\<close>

theorem updateFolder_cycle_counterexample:
  "map_option (map folder_id) (findParentFolders 5 scenario 1 2) = Some [1]
   \<and> updateFolder relational scenario 2 ''Docs'' (Some 3) =
       Inr (\<lparr>folder_id = 2, folder_name = ''Docs'', userId = 1, parentId = Some 3\<rparr>,
            docsMoved (Some 3))
   \<and> updateFolder relational scenario 2 ''Docs'' (Some 2) =
       Inr (\<lparr>folder_id = 2, folder_name = ''Docs'', userId = 1, parentId = Some 2\<rparr>,
            docsMoved (Some 2))"
  using scenario_move [of "Some 3"] scenario_move [of "Some 2"] scenario_targets_of_docs
  by simp

text \<open>
  C1, amended. \<open>updateFolder\<close> does not consult the valid move targets: it succeeds
  exactly when the folder is stored and the constraints of the store accept the new row,
  and then the stored folder has the new name and the parent \<open>newParentId\<close> (\<open>null\<close> when
  that is absent or 0), whatever the new parent is; it fails with the store's
  record-not-found when the folder is not stored and with the store's constraint
  violation otherwise, never with a cycle rejection.
\<close>

theorem updateFolder_unvalidated:
  "((\<exists>r. updateFolder sch st F newName P = Inr r) \<longleftrightarrow>
      (\<exists>old. folder_findUnique st F = Some old
          \<and> folderOk sch st (old\<lparr>folder_name := newName, parentId := orNull P\<rparr>)))
   \<and> (\<forall>row st'. updateFolder sch st F newName P = Inr (row, st') \<longrightarrow>
         folder_id row = F \<and> folder_name row = newName \<and> parentId row = orNull P
         \<and> folder_findUnique st' F = Some row)
   \<and> (\<forall>e. updateFolder sch st F newName P = Inl e \<longrightarrow>
         e = RecordNotFound \<and> folder_findUnique st F = None
         \<or> e = ConstraintViolation \<and> folder_findUnique st F \<noteq> None)"
proof -
  have succeeds: "(\<exists>r. updateFolder sch st F newName P = Inr r) \<longleftrightarrow>
      (\<exists>old. folder_findUnique st F = Some old
          \<and> folderOk sch st (old\<lparr>folder_name := newName, parentId := orNull P\<rparr>))"
    by (cases "folder_findUnique st F") (simp_all add: updateFolder_def folder_update_result)
  have effect: "folder_id row = F \<and> folder_name row = newName \<and> parentId row = orNull P
         \<and> folder_findUnique st' F = Some row"
    if ok: "updateFolder sch st F newName P = Inr (row, st')" for row st'
  proof -
    from ok have "folder_findUnique st' F = Some row"
      unfolding updateFolder_def by (rule folder_update_lookup)
    moreover from ok obtain old where old: "folder_findUnique st F = Some old"
      "row = old\<lparr>folder_name := newName, parentId := orNull P\<rparr>"
      by (cases "folder_findUnique st F")
         (auto simp: updateFolder_def folder_update_result split: if_splits)
    ultimately show ?thesis using findUnique_Some_id [OF old(1)] by simp
  qed
  have failure: "e = RecordNotFound \<and> folder_findUnique st F = None
         \<or> e = ConstraintViolation \<and> folder_findUnique st F \<noteq> None"
    if "updateFolder sch st F newName P = Inl e" for e
    using that
    by (cases "folder_findUnique st F")
       (auto simp: updateFolder_def folder_update_result split: if_splits)
  from succeeds effect failure show ?thesis by blast
qed

theorem updateFolder_unvalidated_witness:
  "updateFolder relational scenario 2 ''Docs'' (Some 3) =
       Inr (\<lparr>folder_id = 2, folder_name = ''Docs'', userId = 1, parentId = Some 3\<rparr>,
            docsMoved (Some 3))
   \<and> folder_findUnique (docsMoved (Some 3)) 2 =
       Some \<lparr>folder_id = 2, folder_name = ''Docs'', userId = 1, parentId = Some 3\<rparr>
   \<and> updateFolder relational scenario 9 ''Docs'' (Some 3) = Inl RecordNotFound
   \<and> folder_findUnique scenario 9 = None"
proof -
  have moved: "updateFolder relational scenario 2 ''Docs'' (Some 3) =
       Inr (\<lparr>folder_id = 2, folder_name = ''Docs'', userId = 1, parentId = Some 3\<rparr>,
            docsMoved (Some 3))"
    using scenario_move [of "Some 3"] by simp
  have missing: "updateFolder relational scenario 9 ''Docs'' (Some 3) = Inl RecordNotFound"
    by (simp add: updateFolder_def folder_update_result folder_findUnique_def scenario_def)
  from updateFolder_unvalidated [of relational scenario 2 "''Docs''" "Some 3"]
    updateFolder_unvalidated [of relational scenario 9 "''Docs''" "Some 3"] moved missing
  show ?thesis by simp
qed

section \<open>Folders without parent\<close>

lemma folder_create_result:
  "folder_create sch st n u p =
     (if folderOk sch st \<lparr>folder_id = Suc (folderSeq st), folder_name = n, userId = u, parentId = p\<rparr>
      then Inr (\<lparr>folder_id = Suc (folderSeq st), folder_name = n, userId = u, parentId = p\<rparr>,
                st\<lparr>folders := folders st @
                     [\<lparr>folder_id = Suc (folderSeq st), folder_name = n, userId = u, parentId = p\<rparr>],
                   folderSeq := Suc (folderSeq st),
                   journal := journal st @ [FolderCreate (Suc (folderSeq st))]\<rparr>)
      else Inl ConstraintViolation)"
  by (simp add: folder_create_def Let_def)

lemma filter_replaced:
  assumes "k row = i" "Q row"
  shows "map k (filter Q (map (\<lambda>f. if k f = i then row else f) xs)) =
         map k (filter (\<lambda>f. k f = i \<or> Q f) xs)"
  by (induction xs) (auto simp: assms)

lemma rootless_after_update:
  assumes "folder_update sch st F n None = Inr (row, st')"
  shows "map folder_id (rootless st' (userId row)) =
         map folder_id (filter (\<lambda>f. folder_id f = F \<or> userId f = userId row \<and> parentId f = None)
                          (folders st))"
proof -
  from assms obtain old where old: "folder_findUnique st F = Some old"
    and row: "row = old\<lparr>folder_name := n, parentId := None\<rparr>"
    and st': "folders st' = map (\<lambda>f. if folder_id f = F then row else f) (folders st)"
    by (cases "folder_findUnique st F") (auto simp: folder_update_result split: if_splits)
  from findUnique_Some_id [OF old] have id: "folder_id row = F" by (simp add: row)
  have root: "parentId row = None" by (simp add: row)
  show ?thesis
    unfolding rootless_def st'
    by (rule filter_replaced) (simp_all add: id root)
qed

text \<open>
  C3 as stated fails: in the scenario user 1 has the one rootless folder Home; updating
  Docs with an absent \<open>newParentId\<close> succeeds, drops the parent of Docs, and leaves the
  user with two rootless folders.
\<close>

theorem updateFolder_second_root_counterexample:
  "updateFolder relational scenario 2 ''Docs'' None =
       Inr (\<lparr>folder_id = 2, folder_name = ''Docs'', userId = 1, parentId = None\<rparr>, docsMoved None)
   \<and> map folder_id (rootless scenario 1) = [1]
   \<and> map folder_id (rootless (docsMoved None) 1) = [1, 2]"
  using scenario_move [of None]
  by (simp add: rootless_def scenario_def docsMoved_def)

lemma filter_one_more:
  "distinct (map k xs) \<Longrightarrow> x \<in> set xs \<Longrightarrow> \<not> Q x \<Longrightarrow>
   length (filter (\<lambda>f. k f = k x \<or> Q f) xs) = Suc (length (filter Q xs))"
proof (induction xs)
  case Nil
  then show ?case by simp
next
  case (Cons a xs)
  show ?case
  proof (cases "a = x")
    case True
    with Cons.prems have "k x \<notin> k ` set xs" by simp
    then have "\<forall>f \<in> set xs. k f \<noteq> k x" by (metis imageI)
    then have "filter (\<lambda>f. k f = k x \<or> Q f) xs = filter Q xs"
      by (intro filter_cong) auto
    with True Cons.prems(3) show ?thesis by simp
  next
    case False
    with Cons.prems have x: "x \<in> set xs" "k a \<noteq> k x" by auto
    with Cons.IH Cons.prems show ?thesis by simp
  qed
qed

lemma filter_same:
  "distinct (map k xs) \<Longrightarrow> x \<in> set xs \<Longrightarrow> Q x \<Longrightarrow>
   filter (\<lambda>f. k f = k x \<or> Q f) xs = filter Q xs"
  by (intro filter_cong) (auto simp: distinct_map inj_on_def)

text \<open>
  C3, amended. An \<open>updateFolder\<close> call succeeds exactly when the folder is stored and
  the store accepts the new row. When its \<open>newParentId\<close> is \<open>null\<close>, absent or 0 it then
  sets the parent of the folder to \<open>null\<close>: afterwards the rootless folders of the owner
  are those from before together with the folder itself, one more than before when the
  folder had a parent and the same when it had none. \<open>createHomeFolder\<close> succeeds
  exactly when the store accepts the row, and then appends a rootless folder Home for
  the user, whether or not the user has one.
\<close>

theorem roots_not_kept_single:
  "((\<exists>r. updateFolder sch st F newName P = Inr r) \<longleftrightarrow>
      (\<exists>old. folder_findUnique st F = Some old
          \<and> folderOk sch st (old\<lparr>folder_name := newName, parentId := orNull P\<rparr>)))
   \<and> (\<forall>old row st'. folder_findUnique st F = Some old
         \<and> updateFolder sch st F newName P = Inr (row, st') \<and> orNull P = None \<longrightarrow>
       parentId row = None \<and> userId row = userId old
       \<and> map folder_id (rootless st' (userId old)) =
           map folder_id (filter (\<lambda>f. folder_id f = F \<or> userId f = userId old \<and> parentId f = None)
                            (folders st))
       \<and> (uniqueIds st \<and> parentId old \<noteq> None \<longrightarrow>
             length (rootless st' (userId old)) = Suc (length (rootless st (userId old))))
       \<and> (uniqueIds st \<and> parentId old = None \<longrightarrow>
             map folder_id (rootless st' (userId old)) = map folder_id (rootless st (userId old))))
   \<and> ((\<exists>st'. createHomeFolder sch st user = Inr st') \<longleftrightarrow>
         folderOk sch st
           \<lparr>folder_id = Suc (folderSeq st), folder_name = ''Home'', userId = user, parentId = None\<rparr>)
   \<and> (\<forall>st'. createHomeFolder sch st user = Inr st' \<longrightarrow>
         rootless st' user = rootless st user @
           [\<lparr>folder_id = Suc (folderSeq st), folder_name = ''Home'', userId = user, parentId = None\<rparr>])"
proof -
  have succeeds: "(\<exists>r. updateFolder sch st F newName P = Inr r) \<longleftrightarrow>
      (\<exists>old. folder_findUnique st F = Some old
          \<and> folderOk sch st (old\<lparr>folder_name := newName, parentId := orNull P\<rparr>))"
    by (cases "folder_findUnique st F") (simp_all add: updateFolder_def folder_update_result)
  have move: "parentId row = None \<and> userId row = userId old
       \<and> map folder_id (rootless st' (userId old)) =
           map folder_id (filter (\<lambda>f. folder_id f = F \<or> userId f = userId old \<and> parentId f = None)
                            (folders st))
       \<and> (uniqueIds st \<and> parentId old \<noteq> None \<longrightarrow>
             length (rootless st' (userId old)) = Suc (length (rootless st (userId old))))
       \<and> (uniqueIds st \<and> parentId old = None \<longrightarrow>
             map folder_id (rootless st' (userId old)) = map folder_id (rootless st (userId old)))"
    if old: "folder_findUnique st F = Some old"
      and ok: "updateFolder sch st F newName P = Inr (row, st')" and absent: "orNull P = None"
    for old row st'
  proof -
    from ok absent have upd: "folder_update sch st F newName None = Inr (row, st')"
      by (simp add: updateFolder_def)
    with old have row: "row = old\<lparr>folder_name := newName, parentId := None\<rparr>"
      by (auto simp: folder_update_result split: if_splits)
    then have same: "parentId row = None" "userId row = userId old" by simp_all
    from old have stored: "old \<in> set (folders st)" "folder_id old = F"
      by (auto dest: findUnique_Some)
    have ids: "map folder_id (rootless st' (userId old)) =
           map folder_id (filter (\<lambda>f. folder_id f = F \<or> userId f = userId old \<and> parentId f = None)
                            (folders st))"
      using rootless_after_update [OF upd] same by simp
    have more: "length (rootless st' (userId old)) = Suc (length (rootless st (userId old)))"
      if "uniqueIds st \<and> parentId old \<noteq> None"
    proof -
      from that have "length (filter (\<lambda>f. folder_id f = folder_id old
            \<or> userId f = userId old \<and> parentId f = None) (folders st))
          = Suc (length (filter (\<lambda>f. userId f = userId old \<and> parentId f = None) (folders st)))"
        using stored(1) by (intro filter_one_more) (simp_all add: uniqueIds_def)
      then have "length (map folder_id (rootless st' (userId old))) = Suc (length (rootless st (userId old)))"
        unfolding ids by (simp add: stored(2) rootless_def)
      then show ?thesis by simp
    qed
    have kept: "map folder_id (rootless st' (userId old)) = map folder_id (rootless st (userId old))"
      if "uniqueIds st \<and> parentId old = None"
    proof -
      from that have "filter (\<lambda>f. folder_id f = folder_id old
            \<or> userId f = userId old \<and> parentId f = None) (folders st)
          = filter (\<lambda>f. userId f = userId old \<and> parentId f = None) (folders st)"
        using stored(1) by (intro filter_same) (simp_all add: uniqueIds_def)
      then show ?thesis unfolding ids by (simp add: stored(2) rootless_def)
    qed
    from same ids more kept show ?thesis by blast
  qed
  have created: "(\<exists>st'. createHomeFolder sch st user = Inr st') \<longleftrightarrow>
         folderOk sch st
           \<lparr>folder_id = Suc (folderSeq st), folder_name = ''Home'', userId = user, parentId = None\<rparr>"
    by (simp add: createHomeFolder_def folder_create_result)
  have home: "rootless st' user = rootless st user @
           [\<lparr>folder_id = Suc (folderSeq st), folder_name = ''Home'', userId = user, parentId = None\<rparr>]"
    if "createHomeFolder sch st user = Inr st'" for st'
    using that
    by (auto simp: createHomeFolder_def folder_create_result rootless_def split: if_splits)
  show ?thesis
  proof (intro conjI allI impI)
    show "(\<exists>r. updateFolder sch st F newName P = Inr r) \<longleftrightarrow>
      (\<exists>old. folder_findUnique st F = Some old
          \<and> folderOk sch st (old\<lparr>folder_name := newName, parentId := orNull P\<rparr>))"
      by (rule succeeds)
  qed (use move created home in \<open>blast+\<close>)
qed

lemma scenario_second_home:
  "createHomeFolder relational scenario 1 =
     Inr (scenario\<lparr>folders := folders scenario @
              [\<lparr>folder_id = 5, folder_name = ''Home'', userId = 1, parentId = None\<rparr>],
            folderSeq := 5, journal := [FolderCreate 5]\<rparr>)"
  by (simp add: createHomeFolder_def folder_create_result relational_def scenario_def)

lemma scenario_rename_home:
  "updateFolder relational scenario 1 ''Home'' None =
     Inr (\<lparr>folder_id = 1, folder_name = ''Home'', userId = 1, parentId = None\<rparr>,
          scenario\<lparr>journal := [FolderUpdate 1]\<rparr>)"
  by (simp add: updateFolder_def folder_update_result folder_findUnique_def orNull_def
      relational_def scenario_def)

lemma scenario_rows:
  "folder_findUnique scenario 2 =
     Some \<lparr>folder_id = 2, folder_name = ''Docs'', userId = 1, parentId = Some 1\<rparr>"
  "folder_findUnique scenario 1 =
     Some \<lparr>folder_id = 1, folder_name = ''Home'', userId = 1, parentId = None\<rparr>"
  by (simp_all add: folder_findUnique_def scenario_def)

theorem roots_not_kept_single_witness:
  "uniqueIds scenario
   \<and> folder_findUnique scenario 2 =
       Some \<lparr>folder_id = 2, folder_name = ''Docs'', userId = 1, parentId = Some 1\<rparr>
   \<and> updateFolder relational scenario 2 ''Docs'' None =
       Inr (\<lparr>folder_id = 2, folder_name = ''Docs'', userId = 1, parentId = None\<rparr>, docsMoved None)
   \<and> orNull None = None
   \<and> length (rootless (docsMoved None) 1) = Suc (length (rootless scenario 1))
   \<and> folder_findUnique scenario 1 =
       Some \<lparr>folder_id = 1, folder_name = ''Home'', userId = 1, parentId = None\<rparr>
   \<and> updateFolder relational scenario 1 ''Home'' None =
       Inr (\<lparr>folder_id = 1, folder_name = ''Home'', userId = 1, parentId = None\<rparr>,
            scenario\<lparr>journal := [FolderUpdate 1]\<rparr>)
   \<and> map folder_id (rootless (scenario\<lparr>journal := [FolderUpdate 1]\<rparr>) 1)
       = map folder_id (rootless scenario 1)
   \<and> folderOk relational scenario
        \<lparr>folder_id = Suc (folderSeq scenario), folder_name = ''Home'', userId = 1, parentId = None\<rparr>
   \<and> createHomeFolder relational scenario 1 =
       Inr (scenario\<lparr>folders := folders scenario @
              [\<lparr>folder_id = 5, folder_name = ''Home'', userId = 1, parentId = None\<rparr>],
            folderSeq := 5, journal := [FolderCreate 5]\<rparr>)
   \<and> rootless (scenario\<lparr>folders := folders scenario @
              [\<lparr>folder_id = 5, folder_name = ''Home'', userId = 1, parentId = None\<rparr>],
            folderSeq := 5, journal := [FolderCreate 5]\<rparr>) 1 =
       rootless scenario 1 @
         [\<lparr>folder_id = Suc (folderSeq scenario), folder_name = ''Home'', userId = 1, parentId = None\<rparr>]"
proof -
  note docs = roots_not_kept_single [where sch = relational and st = scenario and F = 2
      and newName = "''Docs''" and P = None and user = 1]
  note home = roots_not_kept_single [where sch = relational and st = scenario and F = 1
      and newName = "''Home''" and P = None and user = 1]
  have absent: "orNull None = None" by (simp add: orNull_def)
  have moved: "updateFolder relational scenario 2 ''Docs'' None =
       Inr (\<lparr>folder_id = 2, folder_name = ''Docs'', userId = 1, parentId = None\<rparr>, docsMoved None)"
    using scenario_move [of None] by simp
  note after_move = docs [THEN conjunct2, THEN conjunct1, rule_format,
      OF conjI [OF scenario_rows(1) conjI [OF moved absent]]]
  note after_rename = home [THEN conjunct2, THEN conjunct1, rule_format,
      OF conjI [OF scenario_rows(2) conjI [OF scenario_rename_home absent]]]
  from after_move [unfolded folder.select_convs] scenario_uniqueIds
  have grown: "length (rootless (docsMoved None) 1) = Suc (length (rootless scenario 1))"
    by (metis option.distinct(1))
  from after_rename [unfolded folder.select_convs] scenario_uniqueIds
  have kept: "map folder_id (rootless (scenario\<lparr>journal := [FolderUpdate 1]\<rparr>) 1)
       = map folder_id (rootless scenario 1)"
    by blast
  from docs scenario_second_home
  have accepted: "folderOk relational scenario
        \<lparr>folder_id = Suc (folderSeq scenario), folder_name = ''Home'', userId = 1, parentId = None\<rparr>"
    and appended: "rootless (scenario\<lparr>folders := folders scenario @
              [\<lparr>folder_id = 5, folder_name = ''Home'', userId = 1, parentId = None\<rparr>],
            folderSeq := 5, journal := [FolderCreate 5]\<rparr>) 1 =
       rootless scenario 1 @
         [\<lparr>folder_id = Suc (folderSeq scenario), folder_name = ''Home'', userId = 1, parentId = None\<rparr>]"
    by blast+
  from scenario_uniqueIds scenario_rows moved absent grown scenario_rename_home kept accepted
    scenario_second_home appended
  show ?thesis by (intro conjI)
qed

section \<open>Creating a folder\<close>

lemma scenario_foreign_parent:
  "createFolder relational scenario ''Stuff'' 1 (Some 4) =
     Inr (scenario\<lparr>folders := folders scenario @
              [\<lparr>folder_id = 5, folder_name = ''Stuff'', userId = 1, parentId = Some 4\<rparr>],
            folderSeq := 5, journal := [FolderCreate 5]\<rparr>)"
  by (simp add: createFolder_def folder_create_result relational_def scenario_def)

lemma scenario_duplicate_name:
  "createFolder relational scenario ''Docs'' 1 (Some 1) = Inl ConstraintViolation
   \<and> createFolder unconstrained scenario ''Docs'' 1 (Some 1) =
     Inr (scenario\<lparr>folders := folders scenario @
              [\<lparr>folder_id = 5, folder_name = ''Docs'', userId = 1, parentId = Some 1\<rparr>],
            folderSeq := 5, journal := [FolderCreate 5]\<rparr>)"
  by (simp add: createFolder_def folder_create_result relational_def unconstrained_def scenario_def)

text \<open>
  C6 as stated fails: in the scenario folder 4 is the home folder of user 2, and user 1
  creates a folder under it without an error, also with a schema that enforces foreign
  keys and unique sibling names.
\<close>

theorem createFolder_foreign_parent_counterexample:
  "\<not> ownedParent scenario 1 (Some 4)
   \<and> \<not> nameConflict scenario ''Stuff'' 1 (Some 4)
   \<and> createFolder relational scenario ''Stuff'' 1 (Some 4) =
       Inr (scenario\<lparr>folders := folders scenario @
              [\<lparr>folder_id = 5, folder_name = ''Stuff'', userId = 1, parentId = Some 4\<rparr>],
            folderSeq := 5, journal := [FolderCreate 5]\<rparr>)"
  using scenario_foreign_parent
  by (simp add: ownedParent_def nameConflict_def scenario_def)

text \<open>
  C6, amended. \<open>createFolder\<close> checks neither the name nor the owner of the parent: it
  appends the new row exactly when the constraints of the store accept it, fails with
  the store's constraint violation otherwise, and a failure inserts nothing. Whether a
  name is taken is what the separate function \<open>checkFoldernameExist\<close> answers: it holds
  exactly when some stored folder, of any user, has that name and meets the \<open>parentId\<close>
  passed: that parent for a number, no parent for \<open>null\<close>, and any parent or none when
  the \<open>parentId\<close> is \<open>undefined\<close>.
\<close>

theorem createFolder_unchecked:
  "((\<exists>st'. createFolder sch st name user parent = Inr st') \<longleftrightarrow>
      folderOk sch st \<lparr>folder_id = Suc (folderSeq st), folder_name = name, userId = user,
                        parentId = parent\<rparr>)
   \<and> (\<forall>st'. createFolder sch st name user parent = Inr st' \<longrightarrow>
         folders st' = folders st @
           [\<lparr>folder_id = Suc (folderSeq st), folder_name = name, userId = user, parentId = parent\<rparr>]
         \<and> files st' = files st \<and> shareLinks st' = shareLinks st)
   \<and> (\<forall>e. createFolder sch st name user parent = Inl e \<longrightarrow> e = ConstraintViolation)
   \<and> (checkFoldernameExist st name (ParentIs p) \<longleftrightarrow>
         (\<exists>f \<in> set (folders st). folder_name f = name \<and> parentId f = Some p))
   \<and> (checkFoldernameExist st name ParentNull \<longleftrightarrow>
         (\<exists>f \<in> set (folders st). folder_name f = name \<and> parentId f = None))
   \<and> (checkFoldernameExist st name ParentUndefined \<longleftrightarrow>
         (\<exists>f \<in> set (folders st). folder_name f = name))"
proof -
  have a: "(\<exists>st'. createFolder sch st name user parent = Inr st') \<longleftrightarrow>
      folderOk sch st \<lparr>folder_id = Suc (folderSeq st), folder_name = name, userId = user,
                        parentId = parent\<rparr>"
    by (simp add: createFolder_def folder_create_result)
  have b: "folders st' = folders st @
           [\<lparr>folder_id = Suc (folderSeq st), folder_name = name, userId = user, parentId = parent\<rparr>]
         \<and> files st' = files st \<and> shareLinks st' = shareLinks st"
    if "createFolder sch st name user parent = Inr st'" for st'
    using that by (auto simp: createFolder_def folder_create_result split: if_splits)
  have c: "e = ConstraintViolation" if "createFolder sch st name user parent = Inl e" for e
    using that by (auto simp: createFolder_def folder_create_result split: if_splits)
  have d: "checkFoldernameExist st name q \<longleftrightarrow>
         (\<exists>f \<in> set (folders st). folder_name f = name \<and> whereParent q f)" for q
    by (auto simp: checkFoldernameExist_def folder_findFirst_name_parent_def find_None_iff)
  have d1: "checkFoldernameExist st name (ParentIs p) \<longleftrightarrow>
         (\<exists>f \<in> set (folders st). folder_name f = name \<and> parentId f = Some p)"
    using d [of "ParentIs p"] by simp
  have d2: "checkFoldernameExist st name ParentNull \<longleftrightarrow>
         (\<exists>f \<in> set (folders st). folder_name f = name \<and> parentId f = None)"
    using d [of ParentNull] by simp
  have d3: "checkFoldernameExist st name ParentUndefined \<longleftrightarrow>
         (\<exists>f \<in> set (folders st). folder_name f = name)"
    using d [of ParentUndefined] by simp
  have abc: "((\<exists>st'. createFolder sch st name user parent = Inr st') \<longleftrightarrow>
      folderOk sch st \<lparr>folder_id = Suc (folderSeq st), folder_name = name, userId = user,
                        parentId = parent\<rparr>)
   \<and> (\<forall>st'. createFolder sch st name user parent = Inr st' \<longrightarrow>
         folders st' = folders st @
           [\<lparr>folder_id = Suc (folderSeq st), folder_name = name, userId = user, parentId = parent\<rparr>]
         \<and> files st' = files st \<and> shareLinks st' = shareLinks st)
   \<and> (\<forall>e. createFolder sch st name user parent = Inl e \<longrightarrow> e = ConstraintViolation)"
    using a b c by blast
  from abc d1 d2 d3 show ?thesis by (intro conjI) (elim conjE, assumption)+
qed

theorem createFolder_unchecked_witness:
  "createFolder relational scenario ''Stuff'' 1 (Some 4) =
       Inr (scenario\<lparr>folders := folders scenario @
              [\<lparr>folder_id = 5, folder_name = ''Stuff'', userId = 1, parentId = Some 4\<rparr>],
            folderSeq := 5, journal := [FolderCreate 5]\<rparr>)
   \<and> folderOk relational scenario
        \<lparr>folder_id = Suc (folderSeq scenario), folder_name = ''Stuff'', userId = 1, parentId = Some 4\<rparr>
   \<and> createFolder relational scenario ''Docs'' 1 (Some 1) = Inl ConstraintViolation
   \<and> checkFoldernameExist scenario ''Docs'' (ParentIs 1)
   \<and> (\<exists>f \<in> set (folders scenario). folder_name f = ''Docs'' \<and> parentId f = Some 1)
   \<and> checkFoldernameExist scenario ''Docs'' ParentUndefined
   \<and> (\<exists>f \<in> set (folders scenario). folder_name f = ''Docs'')
   \<and> \<not> checkFoldernameExist scenario ''Docs'' ParentNull
   \<and> \<not> (\<exists>f \<in> set (folders scenario). folder_name f = ''Docs'' \<and> parentId f = None)"
proof -
  note stuff = createFolder_unchecked [where sch = relational and st = scenario
      and name = "''Stuff''" and user = 1 and parent = "Some 4" and p = 4]
  note docs = createFolder_unchecked [where sch = relational and st = scenario
      and name = "''Docs''" and user = 1 and parent = "Some 1" and p = 1]
  have a: "createFolder relational scenario ''Stuff'' 1 (Some 4) =
       Inr (scenario\<lparr>folders := folders scenario @
              [\<lparr>folder_id = 5, folder_name = ''Stuff'', userId = 1, parentId = Some 4\<rparr>],
            folderSeq := 5, journal := [FolderCreate 5]\<rparr>)"
    by (rule scenario_foreign_parent)
  from stuff a have b: "folderOk relational scenario
        \<lparr>folder_id = Suc (folderSeq scenario), folder_name = ''Stuff'', userId = 1, parentId = Some 4\<rparr>"
    by blast
  from scenario_duplicate_name
  have c: "createFolder relational scenario ''Docs'' 1 (Some 1) = Inl ConstraintViolation"
    by (rule conjunct1)
  have d: "checkFoldernameExist scenario ''Docs'' (ParentIs 1)"
    "checkFoldernameExist scenario ''Docs'' ParentUndefined"
    "\<not> checkFoldernameExist scenario ''Docs'' ParentNull"
    by (simp_all add: checkFoldernameExist_def folder_findFirst_name_parent_def scenario_def)
  from docs d have e: "\<exists>f \<in> set (folders scenario). folder_name f = ''Docs'' \<and> parentId f = Some 1"
    "\<exists>f \<in> set (folders scenario). folder_name f = ''Docs''"
    "\<not> (\<exists>f \<in> set (folders scenario). folder_name f = ''Docs'' \<and> parentId f = None)"
    by blast+
  from a b c d e show ?thesis by (intro conjI)
qed

section \<open>Creating a share link\<close>







section \<open>Deletion\<close>

subsection \<open>Removing folders from a store\<close>

lemma parentRel_filter:
  "folders st' = filter (\<lambda>f. folder_id f \<notin> S) (folders st) \<Longrightarrow>
   parentRel st' = {(c, p) \<in> parentRel st. c \<notin> S}"
  by (auto simp: parentRel_def)

lemma descendants_filter_subset:
  assumes "folders st' = filter (\<lambda>f. folder_id f \<notin> S) (folders st)"
  shows "descendants st' x \<subseteq> descendants st x"
proof -
  have "parentRel st' \<subseteq> parentRel st" using parentRel_filter [OF assms] by auto
  then have "(parentRel st')\<^sup>+ \<subseteq> (parentRel st)\<^sup>+" by (rule trancl_mono_subset)
  then show ?thesis by (auto simp: descendants_def)
qed

lemma descendants_filter:
  assumes st': "folders st' = filter (\<lambda>f. folder_id f \<notin> S) (folders st)"
    and apart: "descendants st x \<inter> S = {}"
  shows "descendants st' x = descendants st x"
proof
  show "descendants st' x \<subseteq> descendants st x" using st' by (rule descendants_filter_subset)
  show "descendants st x \<subseteq> descendants st' x"
  proof
    fix d
    assume "d \<in> descendants st x"
    then have "(d, x) \<in> (parentRel st)\<^sup>+" by (simp add: descendants_def)
    then have "(d, x) \<in> (parentRel st')\<^sup>+"
    proof (induction rule: converse_trancl_induct)
      case (base y)
      then have "y \<in> descendants st x" by (auto simp: descendants_def)
      with apart have "y \<notin> S" by auto
      with base show ?case unfolding parentRel_filter [OF st'] by auto
    next
      case (step y z)
      then have "(y, x) \<in> (parentRel st)\<^sup>+" by auto
      then have "y \<in> descendants st x" by (simp add: descendants_def)
      with apart have "y \<notin> S" by auto
      with step.hyps(1) have "(y, z) \<in> parentRel st'" unfolding parentRel_filter [OF st'] by auto
      with step.IH show ?case by auto
    qed
    then show "d \<in> descendants st' x" by (simp add: descendants_def)
  qed
qed

lemma children_below: "c \<in> set (folder_findMany_parent st x) \<Longrightarrow> folder_id c \<in> descendants st x"
  using children_ids [of st x] by (auto simp: descendants_def)

lemma descendants_child:
  "c \<in> set (folder_findMany_parent st x) \<Longrightarrow> descendants st (folder_id c) \<subseteq> descendants st x"
  using descendants_unfold [of st x] children_ids [of st x] by auto

lemma children_filter:
  assumes st': "folders st' = filter (\<lambda>f. folder_id f \<notin> S) (folders st)"
    and apart: "descendants st x \<inter> S = {}"
  shows "folder_findMany_parent st' x = folder_findMany_parent st x"
proof -
  have "filter (\<lambda>f. folder_id f \<notin> S) (folder_findMany_parent st x) = folder_findMany_parent st x"
    using apart children_below [of _ st x] by (auto simp: filter_id_conv)
  then show ?thesis
    by (simp add: folder_findMany_parent_def st' conj_commute)
qed

lemma deletionOrder_filter:
  assumes st': "folders st' = filter (\<lambda>f. folder_id f \<notin> S) (folders st)"
  shows "descendants st x \<inter> S = {} \<Longrightarrow> deletionOrder n st' x = deletionOrder n st x"
proof (induction n arbitrary: x)
  case 0
  then show ?case by simp
next
  case (Suc n)
  have "deletionOrder n st' (folder_id c) = deletionOrder n st (folder_id c)"
    if "c \<in> set (folder_findMany_parent st x)" for c
    using Suc.prems descendants_child [OF that] by (intro Suc.IH) auto
  then show ?case
    by (simp add: children_filter [OF st' Suc.prems] cong: map_cong)
qed

lemma shallow_filter:
  assumes st': "folders st' = filter (\<lambda>f. folder_id f \<notin> S) (folders st)"
  shows "shallow n st x \<Longrightarrow> shallow n st' x"
proof (induction n arbitrary: x)
  case 0
  then show ?case by simp
next
  case (Suc n)
  have "set (folder_findMany_parent st' x) \<subseteq> set (folder_findMany_parent st x)"
    by (auto simp: folder_findMany_parent_def st')
  with Suc show ?case by (auto simp: list_all_iff)
qed

lemma shallow_filter_eq:
  assumes st': "folders st' = filter (\<lambda>f. folder_id f \<notin> S) (folders st)"
  shows "descendants st x \<inter> S = {} \<Longrightarrow> shallow n st' x = shallow n st x"
proof (induction n arbitrary: x)
  case 0
  then show ?case by simp
next
  case (Suc n)
  have "shallow n st' (folder_id c) = shallow n st (folder_id c)"
    if "c \<in> set (folder_findMany_parent st x)" for c
    using Suc.prems descendants_child [OF that] by (intro Suc.IH) auto
  then show ?case
    by (simp add: children_filter [OF st' Suc.prems] list_all_iff)
qed

subsection \<open>Siblings have disjoint subtrees\<close>

lemma first_step:
  assumes "uniqueIds st" "(c, p) \<in> parentRel st" "(c, x) \<in> (parentRel st)\<^sup>+"
  shows "p = x \<or> (p, x) \<in> (parentRel st)\<^sup>+"
proof -
  from assms(3) obtain z where "(c, z) \<in> parentRel st" "(z, x) \<in> (parentRel st)\<^sup>*"
    by (auto dest: tranclD)
  with parentRel_functional [OF assms(1,2)] show ?thesis
    by (auto dest: rtranclD)
qed

lemma ancestors_comparable:
  assumes "uniqueIds st"
  shows "(d, a) \<in> (parentRel st)\<^sup>+ \<Longrightarrow> (d, b) \<in> (parentRel st)\<^sup>+ \<Longrightarrow>
         a = b \<or> (a, b) \<in> (parentRel st)\<^sup>+ \<or> (b, a) \<in> (parentRel st)\<^sup>+"
proof (induction rule: converse_trancl_induct)
  case (base y)
  from first_step [OF assms base] show ?case by auto
next
  case (step y z)
  from first_step [OF assms step.hyps(1) step.prems] show ?case
  proof
    assume "z = b"
    with step.hyps(2) show ?thesis by auto
  next
    assume "(z, b) \<in> (parentRel st)\<^sup>+"
    then show ?thesis by (rule step.IH)
  qed
qed

lemma sibling_not_above:
  assumes "uniqueIds st" "(F, F) \<notin> (parentRel st)\<^sup>+"
    and "(c, F) \<in> parentRel st" "(c', F) \<in> parentRel st"
  shows "(c, c') \<notin> (parentRel st)\<^sup>+"
proof
  assume "(c, c') \<in> (parentRel st)\<^sup>+"
  from first_step [OF assms(1,3) this] have "(F, F) \<in> (parentRel st)\<^sup>+"
  proof
    assume "F = c'"
    with assms(4) show ?thesis by auto
  next
    assume "(F, c') \<in> (parentRel st)\<^sup>+"
    with assms(4) show ?thesis by auto
  qed
  with assms(2) show False by simp
qed

lemma siblings_apart:
  assumes "uniqueIds st" "(F, F) \<notin> (parentRel st)\<^sup>+"
    and c: "(c, F) \<in> parentRel st" and c': "(c', F) \<in> parentRel st" and "c \<noteq> c'"
  shows "subtree st c \<inter> subtree st c' = {}"
proof (rule ccontr)
  assume "subtree st c \<inter> subtree st c' \<noteq> {}"
  then obtain x where x: "x = c \<or> (x, c) \<in> (parentRel st)\<^sup>+" "x = c' \<or> (x, c') \<in> (parentRel st)\<^sup>+"
    by (auto simp: subtree_def descendants_def)
  note up = sibling_not_above [OF assms(1,2) c c'] sibling_not_above [OF assms(1,2) c' c]
  from x show False
  proof (elim disjE)
    assume "x = c" "x = c'"
    with \<open>c \<noteq> c'\<close> show False by simp
  next
    assume "x = c" "(x, c') \<in> (parentRel st)\<^sup>+"
    with up show False by simp
  next
    assume "(x, c) \<in> (parentRel st)\<^sup>+" "x = c'"
    with up show False by simp
  next
    assume "(x, c) \<in> (parentRel st)\<^sup>+" "(x, c') \<in> (parentRel st)\<^sup>+"
    from ancestors_comparable [OF assms(1) this] up \<open>c \<noteq> c'\<close> show False by auto
  qed
qed

lemma parent_outside:
  assumes "(F, F) \<notin> (parentRel st)\<^sup>+" "(c, F) \<in> parentRel st"
  shows "F \<notin> subtree st c"
proof
  assume "F \<in> subtree st c"
  then have "F = c \<or> (F, c) \<in> (parentRel st)\<^sup>+" by (auto simp: subtree_def descendants_def)
  with assms(2) have "(F, F) \<in> (parentRel st)\<^sup>+" by auto
  with assms(1) show False by simp
qed

lemma subtree_unfold:
  "subtree st F = insert F (\<Union>c \<in> set (folder_findMany_parent st F). subtree st (folder_id c))"
proof -
  have "descendants st F = (\<Union>c \<in> folder_id ` set (folder_findMany_parent st F). insert c (descendants st c))"
    unfolding children_ids by (rule descendants_unfold)
  then show ?thesis by (simp add: subtree_def)
qed

lemma children_rel:
  "c \<in> set (folder_findMany_parent st F) \<Longrightarrow> (folder_id c, F) \<in> parentRel st"
  using children_ids [of st F] by auto

subsection \<open>Stores\<close>

lemma without_empty: "without {} st = st"
  by (simp add: without_def)

lemma without_twice:
  "without A ((without B st)\<lparr>journal := j\<rparr>) = (without (B \<union> A) st)\<lparr>journal := j\<rparr>"
  by (simp add: without_def)

lemma uniqueIds_filter:
  "uniqueIds st \<Longrightarrow> folders st' = filter P (folders st) \<Longrightarrow> uniqueIds st'"
  by (simp add: uniqueIds_def distinct_map_filter)

lemma no_cycle_filter:
  assumes "folders st' = filter (\<lambda>f. folder_id f \<notin> S) (folders st)"
    and "(x, x) \<notin> (parentRel st)\<^sup>+"
  shows "(x, x) \<notin> (parentRel st')\<^sup>+"
  using descendants_filter_subset [OF assms(1), of x] assms(2) by (auto simp: descendants_def)

lemma folder_delete_stored:
  "F \<in> folder_id ` set (folders st) \<Longrightarrow>
   folder_delete st F =
     Inr (st\<lparr>folders := filter (\<lambda>f. folder_id f \<noteq> F) (folders st),
             journal := journal st @ [FolderDelete F]\<rparr>)"
  by (cases "folder_findUnique st F")
     (auto simp: folder_delete_def folder_findUnique_def find_None_iff)

lemma same_folders:
  "folders st' = folders st \<Longrightarrow> folders st' = filter (\<lambda>f. folder_id f \<notin> {}) (folders st)"
  by simp

subsection \<open>A folder whose subtree fits the bound\<close>

lemma delete_loop:
  assumes IH: "\<And>st F. uniqueIds st \<Longrightarrow> (F, F) \<notin> (parentRel st)\<^sup>+ \<Longrightarrow>
      F \<in> folder_id ` set (folders st) \<Longrightarrow> shallow n st F \<Longrightarrow>
      deleteFolder n st F =
        Some (Inr (), (without (subtree st F) st)\<lparr>journal := journal st @ deletionOrder n st F\<rparr>)"
  shows "uniqueIds st \<Longrightarrow> set cs \<subseteq> set (folders st) \<Longrightarrow>
     \<forall>c \<in> set cs. (folder_id c, folder_id c) \<notin> (parentRel st)\<^sup>+ \<and> shallow n st (folder_id c) \<Longrightarrow>
     distinct (map folder_id cs) \<Longrightarrow>
     \<forall>c \<in> set cs. \<forall>c' \<in> set cs. folder_id c \<noteq> folder_id c' \<longrightarrow>
        subtree st (folder_id c) \<inter> subtree st (folder_id c') = {} \<Longrightarrow>
     forEachTry (\<lambda>subfolder s. deleteFolder n s (folder_id subfolder)) cs st =
       Some (Inr (), (without (\<Union>c \<in> set cs. subtree st (folder_id c)) st)
                       \<lparr>journal := journal st @ concat (map (\<lambda>c. deletionOrder n st (folder_id c)) cs)\<rparr>)"
proof (induction cs arbitrary: st)
  case Nil
  then show ?case by (simp add: without_empty)
next
  case (Cons c cs)
  define S where "S = subtree st (folder_id c)"
  define st'' where "st'' = (without S st)\<lparr>journal := journal st @ deletionOrder n st (folder_id c)\<rparr>"
  have filtered: "folders st'' = filter (\<lambda>f. folder_id f \<notin> S) (folders st)"
    by (simp add: st''_def without_def)
  have head: "deleteFolder n st (folder_id c) = Some (Inr (), st'')"
    unfolding st''_def S_def using Cons.prems by (intro IH) auto
  have apart: "subtree st (folder_id c') \<inter> S = {}" if "c' \<in> set cs" for c'
  proof -
    from Cons.prems(4) have "folder_id c \<notin> folder_id ` set cs" by simp
    with that have "folder_id c' \<noteq> folder_id c" by (metis imageI)
    with that Cons.prems(5) show ?thesis unfolding S_def by auto
  qed
  then have apart': "descendants st (folder_id c') \<inter> S = {}" if "c' \<in> set cs" for c'
    using that by (auto simp: subtree_def)
  have same: "subtree st'' (folder_id c') = subtree st (folder_id c')" if "c' \<in> set cs" for c'
    using descendants_filter [OF filtered apart' [OF that]] by (simp add: subtree_def)
  have order: "deletionOrder n st'' (folder_id c') = deletionOrder n st (folder_id c')"
    if "c' \<in> set cs" for c'
    using filtered apart' [OF that] by (rule deletionOrder_filter)
  have "forEachTry (\<lambda>subfolder s. deleteFolder n s (folder_id subfolder)) cs st'' =
       Some (Inr (), (without (\<Union>c \<in> set cs. subtree st'' (folder_id c)) st'')
                       \<lparr>journal := journal st'' @ concat (map (\<lambda>c. deletionOrder n st'' (folder_id c)) cs)\<rparr>)"
  proof (rule Cons.IH)
    show "uniqueIds st''" using Cons.prems(1) filtered by (rule uniqueIds_filter)
    show "set cs \<subseteq> set (folders st'')"
    proof
      fix c'
      assume c': "c' \<in> set cs"
      with apart [OF c'] have "folder_id c' \<notin> S" by (auto simp: subtree_def)
      with c' Cons.prems(2) show "c' \<in> set (folders st'')" by (auto simp: filtered)
    qed
    show "\<forall>c \<in> set cs. (folder_id c, folder_id c) \<notin> (parentRel st'')\<^sup>+ \<and> shallow n st'' (folder_id c)"
      using Cons.prems(3) no_cycle_filter [OF filtered] shallow_filter [OF filtered] by auto
    show "distinct (map folder_id cs)" using Cons.prems(4) by simp
    show "\<forall>c \<in> set cs. \<forall>c' \<in> set cs. folder_id c \<noteq> folder_id c' \<longrightarrow>
        subtree st'' (folder_id c) \<inter> subtree st'' (folder_id c') = {}"
      using Cons.prems(5) same by auto
  qed
  also have "(\<Union>c \<in> set cs. subtree st'' (folder_id c)) = (\<Union>c \<in> set cs. subtree st (folder_id c))"
    using same by auto
  also have "map (\<lambda>c. deletionOrder n st'' (folder_id c)) cs = map (\<lambda>c. deletionOrder n st (folder_id c)) cs"
    using order by auto
  finally have tail: "forEachTry (\<lambda>subfolder s. deleteFolder n s (folder_id subfolder)) cs st'' =
       Some (Inr (), (without (\<Union>c \<in> set cs. subtree st (folder_id c)) st'')
                       \<lparr>journal := journal st'' @ concat (map (\<lambda>c. deletionOrder n st (folder_id c)) cs)\<rparr>)" .
  show ?case
    unfolding forEachTry.simps head
    by (simp add: tail) (simp add: st''_def S_def without_def)
qed

lemma deleteFolder_removes:
  "uniqueIds st \<Longrightarrow> (F, F) \<notin> (parentRel st)\<^sup>+ \<Longrightarrow> F \<in> folder_id ` set (folders st) \<Longrightarrow>
   shallow n st F \<Longrightarrow>
   deleteFolder n st F =
     Some (Inr (), (without (subtree st F) st)\<lparr>journal := journal st @ deletionOrder n st F\<rparr>)"
proof (induction n arbitrary: st F)
  case 0
  then show ?case by simp
next
  case (Suc n)
  define st1 where "st1 = file_deleteMany_folder st F"
  define cs where "cs = folder_findMany_parent st F"
  define U where "U = (\<Union>c \<in> set cs. subtree st (folder_id c))"
  have "folders st1 = folders st" by (simp add: st1_def file_deleteMany_folder_def)
  then have kept: "folders st1 = filter (\<lambda>f. folder_id f \<notin> {}) (folders st)" by (rule same_folders)
  have rel: "parentRel st1 = parentRel st" using parentRel_filter [OF kept] by simp
  have sub: "subtree st1 x = subtree st x" for x
    using descendants_filter [OF kept, of x] by (simp add: subtree_def)
  have ord: "deletionOrder n st1 x = deletionOrder n st x" for x
    using deletionOrder_filter [OF kept, of x n] by simp
  have cs1: "folder_findMany_parent st1 F = cs"
    using children_filter [OF kept, of F] by (simp add: cs_def)
  have child: "(folder_id c, F) \<in> parentRel st" if "c \<in> set cs" for c
    using that unfolding cs_def by (rule children_rel)
  have loop: "forEachTry (\<lambda>subfolder s. deleteFolder n s (folder_id subfolder)) cs st1 =
       Some (Inr (), (without (\<Union>c \<in> set cs. subtree st1 (folder_id c)) st1)
                       \<lparr>journal := journal st1 @ concat (map (\<lambda>c. deletionOrder n st1 (folder_id c)) cs)\<rparr>)"
  proof (rule delete_loop)
    show "deleteFolder n st F =
        Some (Inr (), (without (subtree st F) st)\<lparr>journal := journal st @ deletionOrder n st F\<rparr>)"
      if "uniqueIds st" "(F, F) \<notin> (parentRel st)\<^sup>+" "F \<in> folder_id ` set (folders st)"
        "shallow n st F" for st F
      using that by (rule Suc.IH)
    show "uniqueIds st1" using Suc.prems(1) kept by (rule uniqueIds_filter)
    show "set cs \<subseteq> set (folders st1)"
      using \<open>folders st1 = folders st\<close> by (auto simp: cs_def folder_findMany_parent_def)
    show "\<forall>c \<in> set cs. (folder_id c, folder_id c) \<notin> (parentRel st1)\<^sup>+ \<and> shallow n st1 (folder_id c)"
    proof
      fix c
      assume c: "c \<in> set cs"
      have "(folder_id c, folder_id c) \<notin> (parentRel st)\<^sup>+"
        using sibling_not_above [OF Suc.prems(1,2) child [OF c] child [OF c]] .
      moreover from Suc.prems(4) c have "shallow n st (folder_id c)"
        by (simp add: cs_def list_all_iff)
      then have "shallow n st1 (folder_id c)" using kept by (rule shallow_filter [rotated])
      ultimately show "(folder_id c, folder_id c) \<notin> (parentRel st1)\<^sup>+ \<and> shallow n st1 (folder_id c)"
        by (simp add: rel)
    qed
    show "distinct (map folder_id cs)"
      using Suc.prems(1) by (simp add: cs_def folder_findMany_parent_def uniqueIds_def distinct_map_filter)
    show "\<forall>c \<in> set cs. \<forall>c' \<in> set cs. folder_id c \<noteq> folder_id c' \<longrightarrow>
        subtree st1 (folder_id c) \<inter> subtree st1 (folder_id c') = {}"
      using siblings_apart [OF Suc.prems(1,2)] child by (simp add: sub)
  qed
  have st2: "forEachTry (\<lambda>subfolder s. deleteFolder n s (folder_id subfolder)) cs st1 =
       Some (Inr (), (without U st1)
                       \<lparr>journal := journal st1 @ concat (map (\<lambda>c. deletionOrder n st (folder_id c)) cs)\<rparr>)"
    using loop by (simp add: sub ord U_def)
  have "F \<notin> U"
    using parent_outside [OF Suc.prems(2) child] by (auto simp: U_def)
  with Suc.prems(3) have stored: "F \<in> folder_id ` set (folders (shareLink_deleteMany_folder
      ((without U st1)\<lparr>journal := journal st1 @ concat (map (\<lambda>c. deletionOrder n st (folder_id c)) cs)\<rparr>) F))"
    by (auto simp: shareLink_deleteMany_folder_def without_def st1_def file_deleteMany_folder_def)
  have whole: "subtree st F = insert F U"
    unfolding U_def cs_def by (rule subtree_unfold)
  show ?case
    unfolding deleteFolder.simps Let_def st1_def [symmetric] cs1 st2
    by (simp add: folder_delete_stored [OF stored] whole)
       (simp add: without_def shareLink_deleteMany_folder_def st1_def file_deleteMany_folder_def
          cs_def conj_commute)
qed

subsection \<open>A folder whose subtree exceeds the bound\<close>

lemma delete_loop_deep:
  assumes IH: "\<And>st F. uniqueIds st \<Longrightarrow> (F, F) \<notin> (parentRel st)\<^sup>+ \<Longrightarrow>
      F \<in> folder_id ` set (folders st) \<Longrightarrow> \<not> shallow n st F \<Longrightarrow> deleteFolder n st F = None"
  shows "uniqueIds st \<Longrightarrow> set cs \<subseteq> set (folders st) \<Longrightarrow>
     \<forall>c \<in> set cs. (folder_id c, folder_id c) \<notin> (parentRel st)\<^sup>+ \<Longrightarrow>
     distinct (map folder_id cs) \<Longrightarrow>
     \<forall>c \<in> set cs. \<forall>c' \<in> set cs. folder_id c \<noteq> folder_id c' \<longrightarrow>
        subtree st (folder_id c) \<inter> subtree st (folder_id c') = {} \<Longrightarrow>
     \<exists>c \<in> set cs. \<not> shallow n st (folder_id c) \<Longrightarrow>
     forEachTry (\<lambda>subfolder s. deleteFolder n s (folder_id subfolder)) cs st = None"
proof (induction cs arbitrary: st)
  case Nil
  then show ?case by simp
next
  case (Cons c cs)
  have stored: "folder_id c \<in> folder_id ` set (folders st)" using Cons.prems(2) by auto
  have acyclic: "(folder_id c, folder_id c) \<notin> (parentRel st)\<^sup>+" using Cons.prems(3) by simp
  show ?case
  proof (cases "shallow n st (folder_id c)")
    case False
    with Cons.prems(1) acyclic stored have "deleteFolder n st (folder_id c) = None"
      by (intro IH)
    then show ?thesis by simp
  next
    case True
    define S where "S = subtree st (folder_id c)"
    define st'' where "st'' = (without S st)\<lparr>journal := journal st @ deletionOrder n st (folder_id c)\<rparr>"
    have filtered: "folders st'' = filter (\<lambda>f. folder_id f \<notin> S) (folders st)"
      by (simp add: st''_def without_def)
    have head: "deleteFolder n st (folder_id c) = Some (Inr (), st'')"
      unfolding st''_def S_def using Cons.prems(1) acyclic stored True
      by (rule deleteFolder_removes)
    have apart: "subtree st (folder_id c') \<inter> S = {}" if "c' \<in> set cs" for c'
    proof -
      from Cons.prems(4) have "folder_id c \<notin> folder_id ` set cs" by simp
      with that have "folder_id c' \<noteq> folder_id c" by (metis imageI)
      with that Cons.prems(5) show ?thesis unfolding S_def by auto
    qed
    then have apart': "descendants st (folder_id c') \<inter> S = {}" if "c' \<in> set cs" for c'
      using that by (auto simp: subtree_def)
    have same: "subtree st'' (folder_id c') = subtree st (folder_id c')" if "c' \<in> set cs" for c'
      using descendants_filter [OF filtered apart' [OF that]] by (simp add: subtree_def)
    have "forEachTry (\<lambda>subfolder s. deleteFolder n s (folder_id subfolder)) cs st'' = None"
    proof (rule Cons.IH)
      show "uniqueIds st''" using Cons.prems(1) filtered by (rule uniqueIds_filter)
      show "set cs \<subseteq> set (folders st'')"
      proof
        fix c'
        assume c': "c' \<in> set cs"
        with apart [OF c'] have "folder_id c' \<notin> S" by (auto simp: subtree_def)
        with c' Cons.prems(2) show "c' \<in> set (folders st'')" by (auto simp: filtered)
      qed
      show "\<forall>c \<in> set cs. (folder_id c, folder_id c) \<notin> (parentRel st'')\<^sup>+"
        using Cons.prems(3) no_cycle_filter [OF filtered] by auto
      show "distinct (map folder_id cs)" using Cons.prems(4) by simp
      show "\<forall>c \<in> set cs. \<forall>c' \<in> set cs. folder_id c \<noteq> folder_id c' \<longrightarrow>
          subtree st'' (folder_id c) \<inter> subtree st'' (folder_id c') = {}"
        using Cons.prems(5) same by auto
      from Cons.prems(6) True obtain d where d: "d \<in> set cs" "\<not> shallow n st (folder_id d)"
        by auto
      then have "\<not> shallow n st'' (folder_id d)"
        using shallow_filter_eq [OF filtered apart' [OF d(1)], of n] by simp
      with d(1) show "\<exists>c \<in> set cs. \<not> shallow n st'' (folder_id c)" by blast
    qed
    then show ?thesis by (simp add: head)
  qed
qed

lemma deleteFolder_deep:
  "uniqueIds st \<Longrightarrow> (F, F) \<notin> (parentRel st)\<^sup>+ \<Longrightarrow> F \<in> folder_id ` set (folders st) \<Longrightarrow>
   \<not> shallow n st F \<Longrightarrow> deleteFolder n st F = None"
proof (induction n arbitrary: st F)
  case 0
  then show ?case by simp
next
  case (Suc n)
  define st1 where "st1 = file_deleteMany_folder st F"
  define cs where "cs = folder_findMany_parent st F"
  have "folders st1 = folders st" by (simp add: st1_def file_deleteMany_folder_def)
  then have kept: "folders st1 = filter (\<lambda>f. folder_id f \<notin> {}) (folders st)" by (rule same_folders)
  have rel: "parentRel st1 = parentRel st" using parentRel_filter [OF kept] by simp
  have sub: "subtree st1 x = subtree st x" for x
    using descendants_filter [OF kept, of x] by (simp add: subtree_def)
  have lev: "shallow n st1 x = shallow n st x" for x
    using shallow_filter_eq [OF kept, of x n] by simp
  have cs1: "folder_findMany_parent st1 F = cs"
    using children_filter [OF kept, of F] by (simp add: cs_def)
  have child: "(folder_id c, F) \<in> parentRel st" if "c \<in> set cs" for c
    using that unfolding cs_def by (rule children_rel)
  have "forEachTry (\<lambda>subfolder s. deleteFolder n s (folder_id subfolder)) cs st1 = None"
  proof (rule delete_loop_deep)
    show "deleteFolder n st F = None"
      if "uniqueIds st" "(F, F) \<notin> (parentRel st)\<^sup>+" "F \<in> folder_id ` set (folders st)"
        "\<not> shallow n st F" for st F
      using that by (rule Suc.IH)
    show "uniqueIds st1" using Suc.prems(1) kept by (rule uniqueIds_filter)
    show "set cs \<subseteq> set (folders st1)"
      using \<open>folders st1 = folders st\<close> by (auto simp: cs_def folder_findMany_parent_def)
    show "\<forall>c \<in> set cs. (folder_id c, folder_id c) \<notin> (parentRel st1)\<^sup>+"
      using sibling_not_above [OF Suc.prems(1,2) child child] by (simp add: rel)
    show "distinct (map folder_id cs)"
      using Suc.prems(1) by (simp add: cs_def folder_findMany_parent_def uniqueIds_def distinct_map_filter)
    show "\<forall>c \<in> set cs. \<forall>c' \<in> set cs. folder_id c \<noteq> folder_id c' \<longrightarrow>
        subtree st1 (folder_id c) \<inter> subtree st1 (folder_id c') = {}"
      using siblings_apart [OF Suc.prems(1,2)] child by (simp add: sub)
    show "\<exists>c \<in> set cs. \<not> shallow n st1 (folder_id c)"
      using Suc.prems(4) by (simp add: lev cs_def list_all_iff)
  qed
  then show ?case
    unfolding deleteFolder.simps Let_def st1_def [symmetric] cs1 by simp
qed

subsection \<open>A folder that is its own descendant\<close>

lemma cycle_above:
  assumes "uniqueIds st" "(a, a) \<in> (parentRel st)\<^sup>+"
  shows "(a, c) \<in> (parentRel st)\<^sup>+ \<Longrightarrow> (c, c) \<in> (parentRel st)\<^sup>+"
proof -
  assume up: "(a, c) \<in> (parentRel st)\<^sup>+"
  then have "(c, a) \<in> (parentRel st)\<^sup>*"
  proof (induction rule: trancl_induct)
    case (base y)
    from first_step [OF assms(1) base assms(2)] show ?case by auto
  next
    case (step y z)
    from step.IH have "(y, a) \<in> (parentRel st)\<^sup>+"
      using assms(2) by (auto dest: rtranclD)
    from first_step [OF assms(1) step.hyps(2) this] show ?case by auto
  qed
  with up show ?thesis by auto
qed

lemma cycle_filter:
  assumes st': "folders st' = filter (\<lambda>f. folder_id f \<notin> S) (folders st)"
    and off: "\<And>s. s \<in> S \<Longrightarrow> (s, s) \<notin> (parentRel st)\<^sup>+"
    and cyc: "(a, a) \<in> (parentRel st)\<^sup>+"
  shows "(a, a) \<in> (parentRel st')\<^sup>+"
proof -
  have "(a, b) \<in> (parentRel st)\<^sup>+ \<Longrightarrow> (b, a) \<in> (parentRel st)\<^sup>* \<Longrightarrow> (a, b) \<in> (parentRel st')\<^sup>+" for b
  proof (induction rule: trancl_induct)
    case (base y)
    from cyc off have "a \<notin> S" by auto
    with base(1) show ?case unfolding parentRel_filter [OF st'] by auto
  next
    case (step y z)
    from step.hyps(2) step.prems have ret: "(y, a) \<in> (parentRel st)\<^sup>*" by auto
    then have "(a, y) \<in> (parentRel st')\<^sup>+" by (rule step.IH)
    moreover from ret step.hyps(1) have "(y, y) \<in> (parentRel st)\<^sup>+" by auto
    with off have "y \<notin> S" by auto
    with step.hyps(2) have "(y, z) \<in> parentRel st'" unfolding parentRel_filter [OF st'] by auto
    ultimately show ?case by auto
  qed
  from this [OF cyc] show ?thesis by simp
qed

lemma subtree_off_cycle:
  assumes "uniqueIds st" "(c, c) \<notin> (parentRel st)\<^sup>+" "s \<in> subtree st c"
  shows "(s, s) \<notin> (parentRel st)\<^sup>+"
proof
  assume cyc: "(s, s) \<in> (parentRel st)\<^sup>+"
  from assms(3) have "s = c \<or> (s, c) \<in> (parentRel st)\<^sup>+" by (auto simp: subtree_def descendants_def)
  then have "(c, c) \<in> (parentRel st)\<^sup>+"
  proof
    assume "s = c"
    with cyc show ?thesis by simp
  next
    assume "(s, c) \<in> (parentRel st)\<^sup>+"
    with assms(1) cyc show ?thesis by (rule cycle_above)
  qed
  with assms(2) show False by simp
qed

lemma sibling_outside:
  assumes "uniqueIds st" "(c, c) \<notin> (parentRel st)\<^sup>+"
    and "(c, F) \<in> parentRel st" "(c', F) \<in> parentRel st" "c' \<noteq> c"
  shows "c' \<notin> subtree st c"
proof
  assume "c' \<in> subtree st c"
  with assms(5) have "(c', c) \<in> (parentRel st)\<^sup>+" by (auto simp: subtree_def descendants_def)
  from first_step [OF assms(1,4) this] assms(3) have "(c, c) \<in> (parentRel st)\<^sup>+" by auto
  with assms(2) show False by simp
qed

lemma delete_loop_cycle:
  assumes IH: "\<And>st F. uniqueIds st \<Longrightarrow> (F, F) \<in> (parentRel st)\<^sup>+ \<Longrightarrow> deleteFolder n st F = None"
  shows "uniqueIds st \<Longrightarrow> set cs \<subseteq> set (folders st) \<Longrightarrow> \<forall>c \<in> set cs. parentId c = Some F \<Longrightarrow>
     distinct (map folder_id cs) \<Longrightarrow>
     \<exists>c \<in> set cs. (folder_id c, folder_id c) \<in> (parentRel st)\<^sup>+ \<Longrightarrow>
     forEachTry (\<lambda>subfolder s. deleteFolder n s (folder_id subfolder)) cs st = None"
proof (induction cs arbitrary: st)
  case Nil
  then show ?case by simp
next
  case (Cons c cs)
  show ?case
  proof (cases "(folder_id c, folder_id c) \<in> (parentRel st)\<^sup>+")
    case True
    with Cons.prems(1) have "deleteFolder n st (folder_id c) = None" by (rule IH)
    then show ?thesis by simp
  next
    case off: False
    have stored: "folder_id c \<in> folder_id ` set (folders st)" using Cons.prems(2) by auto
    show ?thesis
    proof (cases "shallow n st (folder_id c)")
      case False
      with Cons.prems(1) off stored have "deleteFolder n st (folder_id c) = None"
        by (intro deleteFolder_deep)
      then show ?thesis by simp
    next
      case True
      define S where "S = subtree st (folder_id c)"
      define st'' where "st'' = (without S st)\<lparr>journal := journal st @ deletionOrder n st (folder_id c)\<rparr>"
      have filtered: "folders st'' = filter (\<lambda>f. folder_id f \<notin> S) (folders st)"
        by (simp add: st''_def without_def)
      have head: "deleteFolder n st (folder_id c) = Some (Inr (), st'')"
        unfolding st''_def S_def using Cons.prems(1) off stored True
        by (rule deleteFolder_removes)
      have rel: "(folder_id d, F) \<in> parentRel st" if "d \<in> set (c # cs)" for d
        using that Cons.prems(2,3) by (auto simp: parentRel_def)
      have "forEachTry (\<lambda>subfolder s. deleteFolder n s (folder_id subfolder)) cs st'' = None"
      proof (rule Cons.IH)
        show "uniqueIds st''" using Cons.prems(1) filtered by (rule uniqueIds_filter)
        show "set cs \<subseteq> set (folders st'')"
        proof
          fix c'
          assume c': "c' \<in> set cs"
          from Cons.prems(4) have "folder_id c \<notin> folder_id ` set cs" by simp
          with c' have "folder_id c' \<noteq> folder_id c" by (metis imageI)
          moreover have "(folder_id c, F) \<in> parentRel st" by (rule rel) simp
          moreover from c' have "(folder_id c', F) \<in> parentRel st" by (intro rel) simp
          ultimately have "folder_id c' \<notin> S"
            unfolding S_def using Cons.prems(1) off by (intro sibling_outside)
          with c' Cons.prems(2) show "c' \<in> set (folders st'')" by (auto simp: filtered)
        qed
        show "\<forall>c \<in> set cs. parentId c = Some F" using Cons.prems(3) by simp
        show "distinct (map folder_id cs)" using Cons.prems(4) by simp
        from Cons.prems(5) off obtain d
          where d: "d \<in> set cs" "(folder_id d, folder_id d) \<in> (parentRel st)\<^sup>+" by auto
        have "(folder_id d, folder_id d) \<in> (parentRel st'')\<^sup>+"
          using filtered subtree_off_cycle [OF Cons.prems(1) off] d(2)
          unfolding S_def by (rule cycle_filter)
        with d(1) show "\<exists>c \<in> set cs. (folder_id c, folder_id c) \<in> (parentRel st'')\<^sup>+" by blast
      qed
      then show ?thesis by (simp add: head)
    qed
  qed
qed

lemma deleteFolder_cycle:
  "uniqueIds st \<Longrightarrow> (F, F) \<in> (parentRel st)\<^sup>+ \<Longrightarrow> deleteFolder n st F = None"
proof (induction n arbitrary: st F)
  case 0
  then show ?case by simp
next
  case (Suc n)
  define st1 where "st1 = file_deleteMany_folder st F"
  define cs where "cs = folder_findMany_parent st F"
  have "folders st1 = folders st" by (simp add: st1_def file_deleteMany_folder_def)
  then have kept: "folders st1 = filter (\<lambda>f. folder_id f \<notin> {}) (folders st)" by (rule same_folders)
  have rel: "parentRel st1 = parentRel st" using parentRel_filter [OF kept] by simp
  have cs1: "folder_findMany_parent st1 F = cs"
    using \<open>folders st1 = folders st\<close> by (simp add: cs_def folder_findMany_parent_def)
  have "forEachTry (\<lambda>subfolder s. deleteFolder n s (folder_id subfolder)) cs st1 = None"
  proof (rule delete_loop_cycle)
    show "deleteFolder n st F = None" if "uniqueIds st" "(F, F) \<in> (parentRel st)\<^sup>+" for st F
      using that by (rule Suc.IH)
    show "uniqueIds st1" using Suc.prems(1) kept by (rule uniqueIds_filter)
    show "set cs \<subseteq> set (folders st1)"
      using \<open>folders st1 = folders st\<close> by (auto simp: cs_def folder_findMany_parent_def)
    show "\<forall>c \<in> set cs. parentId c = Some F" by (simp add: cs_def folder_findMany_parent_def)
    show "distinct (map folder_id cs)"
      using Suc.prems(1) by (simp add: cs_def folder_findMany_parent_def uniqueIds_def distinct_map_filter)
    from cycle_child [OF Suc.prems(2)] obtain c
      where c: "(c, F) \<in> parentRel st" "(c, c) \<in> (parentRel st)\<^sup>+" by blast
    from child_row [OF c(1)] obtain f where "f \<in> set cs" "folder_id f = c"
      unfolding cs_def by blast
    with c(2) show "\<exists>c \<in> set cs. (folder_id c, folder_id c) \<in> (parentRel st1)\<^sup>+"
      by (auto simp: rel)
  qed
  then show ?case
    unfolding deleteFolder.simps Let_def st1_def [symmetric] cs1 by simp
qed

text \<open>
  An example: once Docs of the scenario has been moved under its subfolder Reports, it
  is its own descendant, and neither traversal returns on it, whatever the bound.
\<close>

lemma docs_under_reports_cycle: "(2, 2) \<in> (parentRel (docsMoved (Some 3)))\<^sup>+"
proof -
  have "(2, 3) \<in> parentRel (docsMoved (Some 3))" "(3, 2) \<in> parentRel (docsMoved (Some 3))"
    by (simp_all add: parentRel_def docsMoved_def scenario_def)
  then show ?thesis by auto
qed

lemma docs_under_reports_walk: "findDescendantFolders n (docsMoved (Some 3)) 2 = None"
proof (cases "findDescendantFolders n (docsMoved (Some 3)) 2")
  case None
  then show ?thesis .
next
  case (Some ds)
  then have "shallow n (docsMoved (Some 3)) 2"
    unfolding findDescendantFolders_def by (rule returns_shallow)
  with cycle_not_shallow [OF docs_under_reports_cycle] show ?thesis by simp
qed

lemma docs_under_reports_delete: "deleteFolder n (docsMoved (Some 3)) 2 = None"
proof (rule deleteFolder_cycle)
  show "uniqueIds (docsMoved (Some 3))" by (simp add: uniqueIds_def docsMoved_def scenario_def)
  show "(2, 2) \<in> (parentRel (docsMoved (Some 3)))\<^sup>+" by (rule docs_under_reports_cycle)
qed

subsection \<open>The store after the deletion\<close>

lemma removed_lookup:
  "F \<in> S \<Longrightarrow> folder_findUnique ((without S st)\<lparr>journal := j\<rparr>) F = None"
  by (auto simp: folder_findUnique_def without_def find_None_iff)

lemma removed_descendants:
  assumes "subtree st F \<subseteq> S"
  shows "descendants ((without S st)\<lparr>journal := j\<rparr>) F = {}"
proof -
  have filtered: "folders ((without S st)\<lparr>journal := j\<rparr>) = filter (\<lambda>f. folder_id f \<notin> S) (folders st)"
    by (simp add: without_def)
  show ?thesis
  proof (rule ccontr)
    assume "descendants ((without S st)\<lparr>journal := j\<rparr>) F \<noteq> {}"
    then obtain d where d: "(d, F) \<in> (parentRel ((without S st)\<lparr>journal := j\<rparr>))\<^sup>+"
      by (auto simp: descendants_def)
    then have "d \<in> descendants st F"
      using descendants_filter_subset [OF filtered, of F] by (auto simp: descendants_def)
    with assms have "d \<in> S" by (auto simp: subtree_def)
    moreover from parentRel_stored [OF d] have "d \<notin> S" by (auto simp: filtered)
    ultimately show False by simp
  qed
qed

lemma scenario_docs_stored: "2 \<in> folder_id ` set (folders scenario)"
  by (simp add: scenario_def)

lemma scenario_delete_docs:
  "deleteFolder 5 scenario 2 =
     Some (Inr (),
       scenario\<lparr>folders :=
           [\<lparr>folder_id = 1, folder_name = ''Home'', userId = 1, parentId = None\<rparr>,
            \<lparr>folder_id = 4, folder_name = ''Home'', userId = 2, parentId = None\<rparr>],
         files :=
           [\<lparr>file_id = 3, file_name = ''c.txt'', file_path = ''uploads/c'', file_size = 30,
              file_folderId = 1\<rparr>],
         shareLinks := [\<lparr>link_id = 2, link_folderId = 1, expiresAt = 100\<rparr>],
         journal :=
           [FileDeleteMany 2, FileDeleteMany 3, ShareLinkDeleteMany 3, FolderDelete 3,
            ShareLinkDeleteMany 2, FolderDelete 2]\<rparr>)"
  by code_simp

text \<open>
  C2. For every stored folder \<open>F\<close>, whenever \<open>deleteFolder\<close> completes it has returned
  without an exception, and the store is the one before without the folders of the
  subtree of \<open>F\<close> (\<open>F\<close> and its descendants), without the files in them and without
  the share links that target them; the statements took effect in the order of the
  specification: for every folder of the subtree its files first, then its subfolders
  in the same way, then its share links, then the folder. In that store \<open>findFolder\<close>
  no longer finds \<open>F\<close> and \<open>F\<close> has no descendants. On a store that keeps the
  invariants of the data model \<open>deleteFolder\<close> completes as soon as the bound on the
  nesting exceeds the number of stored folders.
\<close>

theorem deleteFolder_subtree:
  assumes "uniqueIds st" "F \<in> folder_id ` set (folders st)"
  shows "(let st' = (without (subtree st F) st)\<lparr>journal := journal st @ deletionOrder n st F\<rparr>
          in (\<forall>r. deleteFolder n st F = Some r \<longrightarrow> r = (Inr (), st'))
           \<and> (acyclicity st \<and> length (folders st) < n \<longrightarrow> deleteFolder n st F = Some (Inr (), st'))
           \<and> findFolder st' F = None \<and> descendants st' F = {})"
proof -
  define st' where "st' = (without (subtree st F) st)\<lparr>journal := journal st @ deletionOrder n st F\<rparr>"
  have completes: "r = (Inr (), st')" if r: "deleteFolder n st F = Some r" for r
  proof -
    from r deleteFolder_cycle [OF assms(1), of F n] have off: "(F, F) \<notin> (parentRel st)\<^sup>+"
      by auto
    from r deleteFolder_deep [OF assms(1) off assms(2), of n] have "shallow n st F"
      by auto
    with assms(1) off assms(2) have "deleteFolder n st F = Some (Inr (), st')"
      unfolding st'_def by (rule deleteFolder_removes)
    with r show ?thesis by simp
  qed
  have returns: "deleteFolder n st F = Some (Inr (), st')"
    if "acyclicity st \<and> length (folders st) < n"
  proof -
    from that have inv: "acyclicity st" "length (folders st) < n" by simp_all
    have "(F, F) \<notin> (parentRel st)\<^sup>+" using assms(1) inv(1) by (rule no_cycle)
    moreover have "shallow n st F" using assms(1) inv by (rule wellformed_shallow)
    ultimately show ?thesis using assms unfolding st'_def by (intro deleteFolder_removes)
  qed
  have gone: "findFolder st' F = None"
    by (simp add: st'_def findFolder_def removed_lookup subtree_def)
  have childless: "descendants st' F = {}"
    unfolding st'_def by (rule removed_descendants) simp
  from completes returns gone childless show ?thesis
    unfolding Let_def st'_def [symmetric] by blast
qed

theorem deleteFolder_subtree_witness:
  "uniqueIds scenario \<and> 2 \<in> folder_id ` set (folders scenario)
   \<and> acyclicity scenario \<and> length (folders scenario) < 5
   \<and> deleteFolder 5 scenario 2 =
       Some (Inr (), (without (subtree scenario 2) scenario)
                       \<lparr>journal := journal scenario @ deletionOrder 5 scenario 2\<rparr>)
   \<and> deletionOrder 5 scenario 2 =
       [FileDeleteMany 2, FileDeleteMany 3, ShareLinkDeleteMany 3, FolderDelete 3,
        ShareLinkDeleteMany 2, FolderDelete 2]
   \<and> findFolder ((without (subtree scenario 2) scenario)
                       \<lparr>journal := journal scenario @ deletionOrder 5 scenario 2\<rparr>) 2 = None
   \<and> deleteFolder 5 scenario 2 =
       Some (Inr (),
         scenario\<lparr>folders :=
             [\<lparr>folder_id = 1, folder_name = ''Home'', userId = 1, parentId = None\<rparr>,
              \<lparr>folder_id = 4, folder_name = ''Home'', userId = 2, parentId = None\<rparr>],
           files :=
             [\<lparr>file_id = 3, file_name = ''c.txt'', file_path = ''uploads/c'', file_size = 30,
                file_folderId = 1\<rparr>],
           shareLinks := [\<lparr>link_id = 2, link_folderId = 1, expiresAt = 100\<rparr>],
           journal :=
             [FileDeleteMany 2, FileDeleteMany 3, ShareLinkDeleteMany 3, FolderDelete 3,
              ShareLinkDeleteMany 2, FolderDelete 2]\<rparr>)"
proof -
  have order: "deletionOrder 5 scenario 2 =
       [FileDeleteMany 2, FileDeleteMany 3, ShareLinkDeleteMany 3, FolderDelete 3,
        ShareLinkDeleteMany 2, FolderDelete 2]"
    by code_simp
  from deleteFolder_subtree [OF scenario_uniqueIds scenario_docs_stored, of 5]
    scenario_acyclicity scenario_size
  have "deleteFolder 5 scenario 2 =
       Some (Inr (), (without (subtree scenario 2) scenario)
                       \<lparr>journal := journal scenario @ deletionOrder 5 scenario 2\<rparr>)
    \<and> findFolder ((without (subtree scenario 2) scenario)
                       \<lparr>journal := journal scenario @ deletionOrder 5 scenario 2\<rparr>) 2 = None"
    unfolding Let_def by blast
  with order scenario_uniqueIds scenario_docs_stored scenario_acyclicity scenario_size
    scenario_delete_docs
  show ?thesis by (intro conjI) blast+
qed

section \<open>The bound on the nesting\<close>

text \<open>
  The bound on the nesting is the one argument of the model that the source does not
  have. It does not restrict the model: each traversal of a stored folder returns
  exactly when the bound exceeds the levels of folders below the folder, and on a store
  that keeps the invariants of the data model every bound above the number of stored
  folders does, whatever the depth of the tree.
\<close>

lemma returns_iff_shallow:
  assumes "uniqueIds st" "F \<in> folder_id ` set (folders st)"
  shows "((\<exists>ds. findDescendantFolders n st F = Some ds) \<longleftrightarrow> shallow n st F)
       \<and> ((\<exists>r. deleteFolder n st F = Some r) \<longleftrightarrow> shallow n st F)
       \<and> (acyclicity st \<and> length (folders st) < n \<longrightarrow> shallow n st F)"
proof -
  have walk: "(\<exists>ds. findDescendantFolders n st F = Some ds) \<longleftrightarrow> shallow n st F"
    unfolding findDescendantFolders_def
    using returns_shallow [of n st F "[]"] shallow_returns [of n st F "[]"] by blast
  have delete: "(\<exists>r. deleteFolder n st F = Some r) \<longleftrightarrow> shallow n st F"
  proof (cases "(F, F) \<in> (parentRel st)\<^sup>+")
    case True
    with deleteFolder_cycle [OF assms(1), of F n] cycle_not_shallow [of F st n]
    show ?thesis by simp
  next
    case off: False
    show ?thesis
    proof (cases "shallow n st F")
      case True
      with deleteFolder_removes [OF assms(1) off assms(2), of n] show ?thesis by simp
    next
      case False
      with deleteFolder_deep [OF assms(1) off assms(2), of n] show ?thesis by simp
    qed
  qed
  have enough: "acyclicity st \<and> length (folders st) < n \<longrightarrow> shallow n st F"
    using wellformed_shallow [OF assms(1)] by blast
  from walk delete enough show ?thesis by blast
qed

end
